theory Spec2Isabelle
  imports Main
begin

section \<open>The local Ludo game engine (services/gameEngine.js)\<close>

text \<open>
  The engine is a set of pure functions from a game state to a new game state.
  Objects are records, the token state and the turn phase are datatypes, a value that
  may be \<^verbatim>\<open>null\<close> or \<^verbatim>\<open>undefined\<close> is an option, and the one
  exception the engine can raise (reading a property of \<^verbatim>\<open>undefined\<close>) is the
  left summand of the result type. The two impure calls of the source, the die draw
  \<^verbatim>\<open>rollDieValue()\<close> and the identifier \<^verbatim>\<open>generateId()\<close>, are
  parameters of the functions that make them.
\<close>

subsection \<open>Constants\<close>

definition BOARD_SIZE :: int where
  "BOARD_SIZE = 52"

definition TOKENS_PER_PLAYER :: nat where
  "TOKENS_PER_PLAYER = 4"

definition HOME_STRETCH_LENGTH :: int where
  "HOME_STRETCH_LENGTH = 5"

record player_config =
  cfg_color :: string
  cfg_name :: string
  cfg_startPos :: int
  cfg_homeEntryPos :: int

definition PLAYER_CONFIGS :: "player_config list" where
  "PLAYER_CONFIGS =
    [\<lparr>cfg_color = ''red'', cfg_name = ''Red'', cfg_startPos = 0, cfg_homeEntryPos = 50\<rparr>,
     \<lparr>cfg_color = ''green'', cfg_name = ''Green'', cfg_startPos = 13, cfg_homeEntryPos = 11\<rparr>,
     \<lparr>cfg_color = ''yellow'', cfg_name = ''Yellow'', cfg_startPos = 26, cfg_homeEntryPos = 24\<rparr>,
     \<lparr>cfg_color = ''blue'', cfg_name = ''Blue'', cfg_startPos = 39, cfg_homeEntryPos = 37\<rparr>]"

definition SAFE_SQUARES :: "int list" where
  "SAFE_SQUARES = [0, 8, 13, 21, 26, 34, 39, 47]"

subsection \<open>Data model\<close>

datatype token_state = Base | Active | Home

datatype phase = Roll | Move

datatype error = TypeError

record token =
  id_tok :: string
  state :: token_state
  position :: int
  homeStretchPos :: int
  stepsFromStart :: int

record player =
  index :: nat
  name :: "string option"
  color :: "string option"
  startPos :: int
  homeEntryPos :: int
  tokens :: "token list"
  hasFinished :: bool
  finishOrder_p :: int

record move_entry =
  mv_playerIndex :: nat
  mv_tokenId :: string
  mv_diceValue :: "int option"

record valid_move =
  tokenId :: string
  tokenIndex :: nat

record game_state =
  id_game :: string
  players :: "player list"
  currentPlayerIndex :: nat
  diceValue :: "int option"
  diceRolled :: bool
  hasExtraTurn :: bool
  consecutiveSixes :: int
  winner :: "nat option"
  gameOver :: bool
  turnPhase :: phase
  message :: string
  moveHistory :: "move_entry list"
  finishOrder :: "nat list"

record game_config =
  playerCount :: "int option"
  playerNames :: "string list"
  playerColors :: "string list"

subsection \<open>JavaScript helpers\<close>

text \<open>Reading an array out of range gives \<^verbatim>\<open>undefined\<close>.\<close>

definition nth_opt :: "'a list \<Rightarrow> nat \<Rightarrow> 'a option" where
  "nth_opt xs i = (if i < length xs then Some (xs ! i) else None)"

text \<open>\<^verbatim>\<open>a || b\<close> on strings: the empty string and \<^verbatim>\<open>undefined\<close> are falsy.\<close>

definition str_or :: "string option \<Rightarrow> string option \<Rightarrow> string option" where
  "str_or a b = (case a of None \<Rightarrow> b | Some s \<Rightarrow> if s = [] then b else Some s)"

text \<open>A value inside a template literal.\<close>

definition str_of :: "string option \<Rightarrow> string" where
  "str_of a = (case a of None \<Rightarrow> ''undefined'' | Some s \<Rightarrow> s)"

fun show_nat :: "nat \<Rightarrow> string" where
  "show_nat n =
     (if n < 10 then [char_of (48 + n)]
      else show_nat (n div 10) @ [char_of (48 + n mod 10)])"

declare show_nat.simps [simp del]

definition show_int :: "int \<Rightarrow> string" where
  "show_int i = (if i < 0 then CHR ''-'' # show_nat (nat (- i)) else show_nat (nat i))"

definition show_dice :: "int option \<Rightarrow> string" where
  "show_dice d = (case d of None \<Rightarrow> ''null'' | Some v \<Rightarrow> show_int v)"

text \<open>The remainder operator \<^verbatim>\<open>%\<close> truncates towards zero.\<close>

definition js_rem :: "int \<Rightarrow> int \<Rightarrow> int" where
  "js_rem a b = (if a < 0 then - ((- a) mod \<bar>b\<bar>) else a mod \<bar>b\<bar>)"

text \<open>\<^verbatim>\<open>null\<close> is the number 0 in an addition.\<close>

definition num_of :: "int option \<Rightarrow> int" where
  "num_of d = (case d of None \<Rightarrow> 0 | Some v \<Rightarrow> v)"

text \<open>\<^verbatim>\<open>Array.prototype.findIndex\<close>, with \<open>None\<close> for \<open>-1\<close>.\<close>

primrec findIndex :: "('a \<Rightarrow> bool) \<Rightarrow> 'a list \<Rightarrow> nat option" where
  "findIndex P [] = None"
| "findIndex P (x # xs) = (if P x then Some 0 else map_option Suc (findIndex P xs))"

subsection \<open>createLocalGame\<close>

definition defaultColors :: "string list" where
  "defaultColors = [''red'', ''green'', ''yellow'', ''blue'']"

definition defaultNames :: "string list" where
  "defaultNames = [''Player 1'', ''Player 2'', ''Player 3'', ''Player 4'']"

definition newToken :: "string option \<Rightarrow> nat \<Rightarrow> token" where
  "newToken c t =
     \<lparr>id_tok = str_of c @ ''_'' @ show_nat t, state = Base, position = - 1,
      homeStretchPos = - 1, stepsFromStart = 0\<rparr>"

text \<open>
  One pass of the loop over the players (lines 69 to 92). \<^verbatim>\<open>config.startPos\<close>
  raises when no configuration is found.
\<close>

definition newPlayer :: "string list \<Rightarrow> string list \<Rightarrow> nat \<Rightarrow> error + player" where
  "newPlayer names colors i =
     (let c = str_or (nth_opt colors i) (nth_opt defaultColors i);
          config = (case find (\<lambda>k. Some (cfg_color k) = c) PLAYER_CONFIGS of
                      Some k \<Rightarrow> Some k
                    | None \<Rightarrow> nth_opt PLAYER_CONFIGS i);
          toks = map (newToken c) [0..<TOKENS_PER_PLAYER]
      in case config of
           None \<Rightarrow> Inl TypeError
         | Some k \<Rightarrow>
             Inr \<lparr>index = i, name = str_or (nth_opt names i) (nth_opt defaultNames i),
                  color = c, startPos = cfg_startPos k, homeEntryPos = cfg_homeEntryPos k,
                  tokens = toks, hasFinished = False, finishOrder_p = - 1\<rparr>)"

function playersLoop ::
  "string list \<Rightarrow> string list \<Rightarrow> int \<Rightarrow> nat \<Rightarrow> player list \<Rightarrow> error + player list" where
  "playersLoop names colors n i ps =
     (if int i < n then
        (case newPlayer names colors i of
           Inl e \<Rightarrow> Inl e
         | Inr p \<Rightarrow> playersLoop names colors n (Suc i) (ps @ [p]))
      else Inr ps)"
  by pat_completeness auto
termination
  by (relation "measure (\<lambda>(names, colors, n, i, ps). nat (n - int i))") auto

declare playersLoop.simps [simp del]

text \<open>
  \<open>gid\<close> is what \<^verbatim>\<open>generateId()\<close> returns: a string made from the clock and
  \<^verbatim>\<open>Math.random()\<close>. The first message reads \<^verbatim>\<open>players[0].name\<close>, which
  raises when there is no player.
\<close>

definition createLocalGame :: "string \<Rightarrow> game_config \<Rightarrow> error + game_state" where
  "createLocalGame gid cfg =
     (let n = (case playerCount cfg of None \<Rightarrow> 2 | Some k \<Rightarrow> k)
      in case playersLoop (playerNames cfg) (playerColors cfg) n 0 [] of
           Inl e \<Rightarrow> Inl e
         | Inr ps \<Rightarrow>
             (case ps of
                [] \<Rightarrow> Inl TypeError
              | p0 # _ \<Rightarrow>
                  Inr \<lparr>id_game = gid, players = ps, currentPlayerIndex = 0,
                       diceValue = None, diceRolled = False, hasExtraTurn = False,
                       consecutiveSixes = 0, winner = None, gameOver = False,
                       turnPhase = Roll,
                       message = str_of (name p0) @ '''s turn - Roll the dice!'',
                       moveHistory = [], finishOrder = []\<rparr>))"

subsection \<open>checkCapture\<close>

text \<open>The test of line 389 on an opponent's token.\<close>

definition onCell :: "int \<Rightarrow> token \<Rightarrow> bool" where
  "onCell pos oppToken \<longleftrightarrow>
     state oppToken = Active \<and> position oppToken = pos \<and> homeStretchPos oppToken < 0"

text \<open>
  The loop over the players from index \<open>i\<close> on; the inner loop over the tokens returns
  at the first token that passes the test.
\<close>

fun captureLoop :: "player list \<Rightarrow> nat \<Rightarrow> nat \<Rightarrow> int \<Rightarrow> (nat \<times> nat) option" where
  "captureLoop [] i playerIndex pos = None"
| "captureLoop (opponent # rest) i playerIndex pos =
     (if i = playerIndex then captureLoop rest (Suc i) playerIndex pos
      else (case findIndex (onCell pos) (tokens opponent) of
              Some t \<Rightarrow> Some (i, t)
            | None \<Rightarrow> captureLoop rest (Suc i) playerIndex pos))"

definition checkCapture :: "game_state \<Rightarrow> nat \<Rightarrow> int \<Rightarrow> (nat \<times> nat) option" where
  "checkCapture g playerIndex pos =
     (if pos \<in> set SAFE_SQUARES then None
      else captureLoop (players g) 0 playerIndex pos)"

subsection \<open>getNextPlayerIndex\<close>

function nextLoop :: "player list \<Rightarrow> nat \<Rightarrow> nat \<Rightarrow> nat \<Rightarrow> nat" where
  "nextLoop ps current next attempts =
     (if attempts < length ps then
        (if \<not> hasFinished (ps ! next) then next
         else nextLoop ps current ((next + 1) mod length ps) (attempts + 1))
      else current)"
  by pat_completeness auto
termination
  by (relation "measure (\<lambda>(ps, current, next, attempts). length ps - attempts)") auto

declare nextLoop.simps [simp del]

definition getNextPlayerIndex :: "game_state \<Rightarrow> nat" where
  "getNextPlayerIndex g =
     nextLoop (players g) (currentPlayerIndex g)
       ((currentPlayerIndex g + 1) mod length (players g)) 0"

subsection \<open>getValidMovesLocal\<close>

text \<open>
  The callback of \<^verbatim>\<open>forEach\<close> (lines 205 to 222): the entries one token adds to
  the result.
\<close>

definition validEntry :: "int \<Rightarrow> nat \<Rightarrow> token \<Rightarrow> valid_move list" where
  "validEntry d i t =
     (case state t of
        Home \<Rightarrow> []
      | Base \<Rightarrow> (if d = 6 then [\<lparr>tokenId = id_tok t, tokenIndex = i\<rparr>] else [])
      | Active \<Rightarrow>
          (let newSteps = stepsFromStart t + d;
               totalPath = BOARD_SIZE + HOME_STRETCH_LENGTH + 1
           in if newSteps \<le> totalPath then [\<lparr>tokenId = id_tok t, tokenIndex = i\<rparr>] else []))"

text \<open>
  A missing or zero dice value is falsy and gives the empty list before the player is
  looked at; otherwise \<^verbatim>\<open>player.tokens\<close> raises when the current player index
  is out of range.
\<close>

definition getValidMovesLocal :: "game_state \<Rightarrow> error + valid_move list" where
  "getValidMovesLocal g =
     (case diceValue g of
        None \<Rightarrow> Inr []
      | Some d \<Rightarrow>
          if d = 0 then Inr []
          else (case nth_opt (players g) (currentPlayerIndex g) of
                  None \<Rightarrow> Inl TypeError
                | Some p \<Rightarrow>
                    Inr (concat (map (\<lambda>i. validEntry d i (tokens p ! i))
                                   [0..<length (tokens p)]))))"

subsection \<open>moveLocalToken\<close>

text \<open>
  The branch on the acting token (lines 252 to 291): the move is refused, or it gives
  the token after the move, the message, and the cell handed to
  \<^verbatim>\<open>checkCapture\<close> in the two branches that call it. The pictographs that end
  some messages of the source are left out.
\<close>

datatype moved = Rejected | Moved token string "int option"

definition moveToken :: "player \<Rightarrow> token \<Rightarrow> int option \<Rightarrow> moved" where
  "moveToken p t d =
     (if state t = Base \<and> d = Some 6 then
        Moved (t\<lparr>state := Active, position := startPos p, stepsFromStart := 0\<rparr>)
          (str_of (name p) @ '' moves a token to the starting position.'')
          (Some (startPos p))
      else if state t = Active then
        (let newSteps = stepsFromStart t + num_of d;
             homeEntrySteps = BOARD_SIZE;
             totalPathToHome = BOARD_SIZE + HOME_STRETCH_LENGTH + 1
         in if newSteps = totalPathToHome then
              Moved (t\<lparr>state := Home, position := - 1, homeStretchPos := - 1,
                       stepsFromStart := newSteps\<rparr>)
                (str_of (name p) @ '''s token reached HOME! '')
                None
            else if newSteps > homeEntrySteps then
              Moved (t\<lparr>homeStretchPos := newSteps - homeEntrySteps - 1, position := - 1,
                       stepsFromStart := newSteps\<rparr>)
                (str_of (name p) @ '' moves a token into the home stretch.'')
                None
            else
              (let newPosition = js_rem (startPos p + newSteps) BOARD_SIZE
               in Moved (t\<lparr>position := newPosition, stepsFromStart := newSteps\<rparr>)
                    (str_of (name p) @ '' moves a token '' @ show_dice d @ '' spaces.'')
                    (Some newPosition)))
      else Rejected)"

text \<open>The object written over a captured token (lines 302 to 308).\<close>

definition resetToken :: "token \<Rightarrow> token" where
  "resetToken t = t\<lparr>state := Base, position := - 1, homeStretchPos := - 1, stepsFromStart := 0\<rparr>"

text \<open>The \<^verbatim>\<open>map\<close> over the players (lines 294 to 312).\<close>

definition applyCapture ::
  "player list \<Rightarrow> nat \<Rightarrow> nat \<Rightarrow> token \<Rightarrow> (nat \<times> nat) option \<Rightarrow> player list" where
  "applyCapture ps playerIndex tokIndex tok capturedToken =
     map (\<lambda>i. let p = ps ! i
               in if i = playerIndex then p\<lparr>tokens := (tokens p)[tokIndex := tok]\<rparr>
                  else (case capturedToken of
                          None \<Rightarrow> p
                        | Some (ci, ct) \<Rightarrow>
                            if i = ci
                            then p\<lparr>tokens := (tokens p)[ct := resetToken (tokens p ! ct)]\<rparr>
                            else p))
       [0..<length ps]"

text \<open>
  The rest of the function (lines 293 to 368), for a move that was not refused:
  the capture is applied, the finish and the end of the game are detected, the turn is
  handed over and the new state is built.
\<close>

definition finishMove ::
  "game_state \<Rightarrow> string \<Rightarrow> nat \<Rightarrow> token \<Rightarrow> string \<Rightarrow> (nat \<times> nat) option \<Rightarrow> game_state" where
  "finishMove g tokId tokIndex tok msg capturedToken =
     (let playerIndex = currentPlayerIndex g;
          newPlayers = applyCapture (players g) playerIndex tokIndex tok capturedToken;
          msg1 = (case capturedToken of
                    None \<Rightarrow> msg
                  | Some (ci, ct) \<Rightarrow>
                      msg @ '' Captured '' @ str_of (name (players g ! ci)) @ '''s token! '');
          updatedPlayer = newPlayers ! playerIndex;
          allHome = list_all (\<lambda>t. state t = Home) (tokens updatedPlayer);
          finishing = (allHome \<and> \<not> hasFinished updatedPlayer);
          finishOrder1 = (if finishing then finishOrder g @ [playerIndex] else finishOrder g);
          newPlayers1 =
            (if finishing
             then newPlayers[playerIndex :=
                    updatedPlayer\<lparr>hasFinished := True,
                                   finishOrder_p := int (length (finishOrder g))\<rparr>]
             else newPlayers);
          msg2 = (if finishing then msg1 @ '' '' @ str_of (name updatedPlayer) @ '' has finished! ''
                  else msg1);
          activePlayers = length (filter (\<lambda>p. \<not> hasFinished p) newPlayers1);
          over = (finishing \<and> (activePlayers \<le> 1 \<or> length finishOrder1 = 1));
          msg3 = (if over then '' '' @ str_of (name updatedPlayer) @ '' WINS! Congratulations! ''
                  else msg2);
          extra = (hasExtraTurn g \<or> capturedToken \<noteq> None);
          nextPlayerIndex =
            (if \<not> over \<and> \<not> extra then getNextPlayerIndex (g\<lparr>players := newPlayers1\<rparr>)
             else playerIndex);
          msg4 =
            (if \<not> over \<and> \<not> extra
             then msg3 @ '' '' @ str_of (name (newPlayers1 ! nextPlayerIndex)) @ '''s turn.''
             else if \<not> over \<and> extra
             then msg3 @ '' '' @ str_of (name updatedPlayer) @ '' gets another turn!''
             else msg3)
      in g\<lparr>players := newPlayers1,
           currentPlayerIndex := nextPlayerIndex,
           diceValue := None,
           diceRolled := False,
           turnPhase := Roll,
           hasExtraTurn := False,
           consecutiveSixes := (if extra then consecutiveSixes g else 0),
           gameOver := over,
           winner := (if over then Some playerIndex else None),
           finishOrder := finishOrder1,
           message := msg4,
           moveHistory := moveHistory g @
             [\<lparr>mv_playerIndex = playerIndex, mv_tokenId = tokId, mv_diceValue = diceValue g\<rparr>]\<rparr>)"

text \<open>
  The variable \<^verbatim>\<open>capturedToken\<close>: \<^verbatim>\<open>null\<close> unless the branch taken
  called \<^verbatim>\<open>checkCapture\<close> on the cell it moved the token to.
\<close>

definition capturedToken :: "game_state \<Rightarrow> int option \<Rightarrow> (nat \<times> nat) option" where
  "capturedToken g cell =
     (case cell of None \<Rightarrow> None | Some c \<Rightarrow> checkCapture g (currentPlayerIndex g) c)"

text \<open>
  \<^verbatim>\<open>player.tokens.findIndex\<close> raises when the current player index is out of
  range (the spread of \<^verbatim>\<open>undefined\<close> is an object without tokens).
\<close>

definition moveLocalToken :: "game_state \<Rightarrow> string \<Rightarrow> error + game_state" where
  "moveLocalToken g tokId =
     (if gameOver g then Inr (g\<lparr>message := ''Game is over!''\<rparr>)
      else (case nth_opt (players g) (currentPlayerIndex g) of
              None \<Rightarrow> Inl TypeError
            | Some p \<Rightarrow>
                (case findIndex (\<lambda>t. id_tok t = tokId) (tokens p) of
                   None \<Rightarrow> Inr (g\<lparr>message := ''Invalid token!''\<rparr>)
                 | Some tokIndex \<Rightarrow>
                     (case moveToken p (tokens p ! tokIndex) (diceValue g) of
                        Rejected \<Rightarrow> Inr (g\<lparr>message := ''Cannot move this token!''\<rparr>)
                      | Moved tok msg cell \<Rightarrow>
                          Inr (finishMove g tokId tokIndex tok msg (capturedToken g cell))))))"

subsection \<open>rollLocalDice\<close>

text \<open>
  \<open>d\<close> is what \<^verbatim>\<open>rollDieValue()\<close> returns, an integer from 1 to 6. The messages
  read the current player's name, which raises when the index is out of range.
\<close>

definition rollLocalDice :: "int \<Rightarrow> game_state \<Rightarrow> error + game_state" where
  "rollLocalDice d g =
     (if gameOver g then Inr (g\<lparr>message := ''Game is over!''\<rparr>)
      else if turnPhase g \<noteq> Roll then Inr (g\<lparr>message := ''You must move a token first!''\<rparr>)
      else
        (let rolled = g\<lparr>diceValue := Some d, diceRolled := True\<rparr>
         in if d = 6 \<and> consecutiveSixes g + 1 \<ge> 3 then
              (let newState = rolled\<lparr>consecutiveSixes := consecutiveSixes g + 1\<rparr>;
                   nextPlayerIndex = getNextPlayerIndex newState
               in case nth_opt (players g) (currentPlayerIndex g) of
                    None \<Rightarrow> Inl TypeError
                  | Some cur \<Rightarrow>
                      (case nth_opt (players newState) nextPlayerIndex of
                         None \<Rightarrow> Inl TypeError
                       | Some nxt \<Rightarrow>
                           Inr (newState\<lparr>turnPhase := Roll, diceRolled := False,
                                  diceValue := None, consecutiveSixes := 0,
                                  currentPlayerIndex := nextPlayerIndex,
                                  hasExtraTurn := False,
                                  message := str_of (name cur) @ '' rolled three 6s! Turn lost. ''
                                    @ str_of (name nxt) @ '''s turn.''\<rparr>)))
            else
              (let newState =
                     rolled\<lparr>consecutiveSixes := (if d = 6 then consecutiveSixes g + 1 else 0),
                            hasExtraTurn := (d = 6)\<rparr>
               in case getValidMovesLocal newState of
                    Inl e \<Rightarrow> Inl e
                  | Inr validMoves \<Rightarrow>
                      (case validMoves of
                         [] \<Rightarrow>
                           (case nth_opt (players g) (currentPlayerIndex g) of
                              None \<Rightarrow> Inl TypeError
                            | Some cur \<Rightarrow>
                                if hasExtraTurn newState then
                                  Inr (newState\<lparr>turnPhase := Roll, diceRolled := False,
                                         diceValue := None, hasExtraTurn := False,
                                         message := str_of (name cur) @ '' rolled '' @ show_int d
                                           @ '' but has no valid moves. Roll again!''\<rparr>)
                                else
                                  (let nextPlayerIndex = getNextPlayerIndex newState
                                   in case nth_opt (players newState) nextPlayerIndex of
                                        None \<Rightarrow> Inl TypeError
                                      | Some nxt \<Rightarrow>
                                          Inr (newState\<lparr>turnPhase := Roll, diceRolled := False,
                                                 diceValue := None,
                                                 currentPlayerIndex := nextPlayerIndex,
                                                 message := str_of (name cur) @ '' rolled ''
                                                   @ show_int d @ '' but has no valid moves. ''
                                                   @ str_of (name nxt) @ '''s turn.''\<rparr>)))
                       | [m] \<Rightarrow> moveLocalToken newState (tokenId m)
                       | _ \<Rightarrow>
                           (case nth_opt (players g) (currentPlayerIndex g) of
                              None \<Rightarrow> Inl TypeError
                            | Some cur \<Rightarrow>
                                Inr (newState\<lparr>turnPhase := Move,
                                       message := str_of (name cur) @ '' rolled '' @ show_int d
                                         @ ''. Choose a token to move.''\<rparr>))))))"

subsection \<open>getBoardCoordinates\<close>

record coord =
  row :: int
  col :: int

definition rc :: "int \<Rightarrow> int \<Rightarrow> coord" where
  "rc r c = \<lparr>row = r, col = c\<rparr>"

definition pathCoords :: "coord list" where
  "pathCoords =
    [rc 13 6, rc 12 6, rc 11 6, rc 10 6, rc 9 6,
     rc 8 5, rc 8 4, rc 8 3, rc 8 2, rc 8 1, rc 8 0,
     rc 7 0, rc 6 0,
     rc 6 1, rc 6 2, rc 6 3, rc 6 4, rc 6 5,
     rc 5 6, rc 4 6, rc 3 6, rc 2 6, rc 1 6, rc 0 6,
     rc 0 7, rc 0 8,
     rc 1 8, rc 2 8, rc 3 8, rc 4 8, rc 5 8,
     rc 6 9, rc 6 10, rc 6 11, rc 6 12, rc 6 13, rc 6 14,
     rc 7 14, rc 8 14,
     rc 8 13, rc 8 12, rc 8 11, rc 8 10, rc 8 9,
     rc 9 8, rc 10 8, rc 11 8, rc 12 8, rc 13 8, rc 14 8,
     rc 14 7, rc 14 6,
     rc 13 7]"

definition getBoardCoordinates :: "int \<Rightarrow> coord" where
  "getBoardCoordinates pos =
     (if pos \<ge> 0 \<and> pos < int (length pathCoords) then pathCoords ! nat pos
      else rc 7 7)"

section \<open>Runs of the engine\<close>

text \<open>
  A caller drives the engine by a sequence of operations, each on the state the
  previous one returned. \<open>run\<close> stops at the first exception.
\<close>

datatype op = RollOp int | MoveOp string

fun run :: "game_state \<Rightarrow> op list \<Rightarrow> error + game_state" where
  "run g [] = Inr g"
| "run g (RollOp d # ops) =
     (case rollLocalDice d g of Inl e \<Rightarrow> Inl e | Inr g' \<Rightarrow> run g' ops)"
| "run g (MoveOp t # ops) =
     (case moveLocalToken g t of Inl e \<Rightarrow> Inl e | Inr g' \<Rightarrow> run g' ops)"

subsection \<open>Example games\<close>

text \<open>A game of two players, red and green, with the default names.\<close>

definition exampleConfig :: game_config where
  "exampleConfig = \<lparr>playerCount = Some 2, playerNames = [], playerColors = []\<rparr>"

definition game0 :: game_state where
  "game0 = projr (createLocalGame ''game_1'' exampleConfig)"

text \<open>The state after the operations \<open>ops\<close> on the new game.\<close>

definition play :: "op list \<Rightarrow> game_state" where
  "play ops = projr (run game0 ops)"

text \<open>Red has rolled a six and may take any of the four tokens out of the base.\<close>

definition redRolledSix :: game_state where
  "redRolledSix = play [RollOp 6]"

definition redLeftBase :: game_state where
  "redLeftBase = play [RollOp 6, MoveOp ''red_0'']"

text \<open>The token at index \<open>t\<close> of player \<open>i\<close> in a returned state.\<close>

definition tokenAfter :: "error + game_state \<Rightarrow> nat \<Rightarrow> nat \<Rightarrow> token option" where
  "tokenAfter r i t = (case r of Inl e \<Rightarrow> None | Inr g \<Rightarrow> Some (tokens (players g ! i) ! t))"

text \<open>Red has taken a token out and rolled a second six.\<close>

definition redSecondSix :: game_state where
  "redSecondSix = play [RollOp 6, MoveOp ''red_0'', RollOp 6]"

text \<open>Red has rolled two sixes in a row and moved after each.\<close>

definition redTwoSixes :: game_state where
  "redTwoSixes = play [RollOp 6, MoveOp ''red_0'', RollOp 6, MoveOp ''red_1'']"

text \<open>
  Red has walked one token to step 57 (green never rolls a six and passes each time),
  then rolled a six: the three tokens in the base may move, the token at step 57 may
  not.
\<close>

definition redAt57 :: game_state where
  "redAt57 = play
     [RollOp 6, MoveOp ''red_0'', RollOp 6, MoveOp ''red_0'', RollOp 5, RollOp 1,
      RollOp 6, MoveOp ''red_0'', RollOp 6, MoveOp ''red_0'', RollOp 5, RollOp 1,
      RollOp 6, MoveOp ''red_0'', RollOp 6, MoveOp ''red_0'', RollOp 5, RollOp 1,
      RollOp 6, MoveOp ''red_0'', RollOp 5, RollOp 1,
      RollOp 1, RollOp 1,
      RollOp 6]"

text \<open>The caller moves the token at step 57 all the same.\<close>

definition redOvershot :: game_state where
  "redOvershot = play
     [RollOp 6, MoveOp ''red_0'', RollOp 6, MoveOp ''red_0'', RollOp 5, RollOp 1,
      RollOp 6, MoveOp ''red_0'', RollOp 6, MoveOp ''red_0'', RollOp 5, RollOp 1,
      RollOp 6, MoveOp ''red_0'', RollOp 6, MoveOp ''red_0'', RollOp 5, RollOp 1,
      RollOp 6, MoveOp ''red_0'', RollOp 5, RollOp 1,
      RollOp 1, RollOp 1,
      RollOp 6, MoveOp ''red_0'']"

text \<open>The caller moves a token of red a second time without rolling.\<close>

definition redMovedUnrolled :: game_state where
  "redMovedUnrolled = play [RollOp 6, MoveOp ''red_0'', MoveOp ''red_0'']"

text \<open>
  Red has a token at step 8 and has rolled a six; a token of green stands on cell 14,
  one step after the green start.
\<close>

definition redFacingGreen :: game_state where
  "redFacingGreen = play
     [RollOp 6, MoveOp ''red_0'', RollOp 6, MoveOp ''red_0'', RollOp 2,
      RollOp 6, MoveOp ''green_0'', RollOp 1, RollOp 6]"


subsection \<open>Reachable states\<close>

text \<open>
  The state that \<open>rollLocalDice\<close> builds after the draw (the variable
  \<^verbatim>\<open>newState\<close> of the source once the six counter is set) and hands to
  \<open>getValidMovesLocal\<close> and, when a single move is valid, to \<open>moveLocalToken\<close>.
\<close>

definition newState :: "int \<Rightarrow> game_state \<Rightarrow> game_state" where
  "newState d g =
     g\<lparr>diceValue := Some d, diceRolled := True,
       consecutiveSixes := (if d = 6 then consecutiveSixes g + 1 else 0),
       hasExtraTurn := (d = 6)\<rparr>"

text \<open>A die shows 1 to 6; a caller may ask to move any token id at any time.\<close>

fun okOp :: "op \<Rightarrow> bool" where
  "okOp (RollOp d) = (1 \<le> d \<and> d \<le> 6)"
| "okOp (MoveOp t) = True"

text \<open>The states of a game: what \<open>createLocalGame\<close> returns and what the two
  operations return from there.\<close>

inductive reachable :: "game_state \<Rightarrow> bool" where
  created: "createLocalGame gid cfg = Inr g \<Longrightarrow> reachable g"
| rolled: "reachable g \<Longrightarrow> 1 \<le> d \<Longrightarrow> d \<le> 6 \<Longrightarrow> rollLocalDice d g = Inr g' \<Longrightarrow> reachable g'"
| moved: "reachable g \<Longrightarrow> moveLocalToken g tokId = Inr g' \<Longrightarrow> reachable g'"

text \<open>\<open>later g g'\<close>: the state \<open>g'\<close> comes from \<open>g\<close> by any number of operations.\<close>

inductive later :: "game_state \<Rightarrow> game_state \<Rightarrow> bool" where
  now: "later g g"
| rolled: "later g g1 \<Longrightarrow> rollLocalDice d g1 = Inr g2 \<Longrightarrow> later g g2"
| moved: "later g g1 \<Longrightarrow> moveLocalToken g1 tokId = Inr g2 \<Longrightarrow> later g g2"

text \<open>
  While the game is not over nobody has finished, and a player whose tokens are all
  home is marked as finished.
\<close>

definition finishInv :: "game_state \<Rightarrow> bool" where
  "finishInv g \<longleftrightarrow>
     (gameOver g \<or> finishOrder g = [])
     \<and> (\<forall>p\<in>set (players g). list_all (\<lambda>t. state t = Home) (tokens p) \<longrightarrow> hasFinished p)"

text \<open>
  A whole game: red brings its four tokens home one after the other, green never rolls
  a six. Before the last roll the fourth token of red is at step 57.
\<close>

definition lastRollOps :: "op list" where
  "lastRollOps =
     [RollOp 6, MoveOp ''red_0'', RollOp 6, MoveOp ''red_0'', RollOp 5, RollOp 1,
      RollOp 6, MoveOp ''red_0'', RollOp 6, MoveOp ''red_0'', RollOp 5, RollOp 1,
      RollOp 6, MoveOp ''red_0'', RollOp 6, MoveOp ''red_0'', RollOp 5, RollOp 1,
      RollOp 6, MoveOp ''red_0'', RollOp 6, MoveOp ''red_0'', RollOp 1, RollOp 1,
      RollOp 6, MoveOp ''red_1'', RollOp 6, MoveOp ''red_1'', RollOp 5, RollOp 1,
      RollOp 6, MoveOp ''red_1'', RollOp 6, MoveOp ''red_1'', RollOp 5, RollOp 1,
      RollOp 6, MoveOp ''red_1'', RollOp 6, MoveOp ''red_1'', RollOp 5, RollOp 1,
      RollOp 6, MoveOp ''red_1'', RollOp 6, MoveOp ''red_1'', RollOp 1, RollOp 1,
      RollOp 6, MoveOp ''red_2'', RollOp 6, MoveOp ''red_2'', RollOp 5, RollOp 1,
      RollOp 6, MoveOp ''red_2'', RollOp 6, MoveOp ''red_2'', RollOp 5, RollOp 1,
      RollOp 6, MoveOp ''red_2'', RollOp 6, MoveOp ''red_2'', RollOp 5, RollOp 1,
      RollOp 6, MoveOp ''red_2'', RollOp 6, MoveOp ''red_2'', RollOp 1, RollOp 1,
      RollOp 6, RollOp 6, RollOp 5, RollOp 1, RollOp 6, RollOp 6,
      RollOp 5, RollOp 1, RollOp 6, RollOp 6, RollOp 5, RollOp 1,
      RollOp 6, RollOp 6]"

definition redLastRoll :: game_state where
  "redLastRoll = play lastRollOps"

definition redWon :: game_state where
  "redWon = play (lastRollOps @ [RollOp 1])"

subsection \<open>Games played by the rules\<close>

text \<open>
  The states of a game in which the caller only moves tokens that
  \<open>getValidMovesLocal\<close> lists, as the user interface does.
\<close>

inductive played :: "game_state \<Rightarrow> bool" where
  created: "createLocalGame gid cfg = Inr g \<Longrightarrow> played g"
| rolled: "played g \<Longrightarrow> 1 \<le> d \<Longrightarrow> d \<le> 6 \<Longrightarrow> rollLocalDice d g = Inr g' \<Longrightarrow> played g'"
| moved: "played g \<Longrightarrow> getValidMovesLocal g = Inr ms \<Longrightarrow> tokId \<in> set (map tokenId ms)
            \<Longrightarrow> moveLocalToken g tokId = Inr g' \<Longrightarrow> played g'"

text \<open>
  In such a game the token ids of a player are distinct and every token has between 0
  and 58 steps, none while it is in the base; a dice value that is present is 1 to 6.
\<close>

definition tokensInv :: "game_state \<Rightarrow> bool" where
  "tokensInv g \<longleftrightarrow>
     (\<forall>p\<in>set (players g).
        distinct (map id_tok (tokens p))
        \<and> (\<forall>t\<in>set (tokens p).
              0 \<le> stepsFromStart t \<and> stepsFromStart t \<le> 58
              \<and> (state t = Base \<longrightarrow> stepsFromStart t = 0)))"

definition diceInv :: "game_state \<Rightarrow> bool" where
  "diceInv g \<longleftrightarrow> (\<forall>d. diceValue g = Some d \<longrightarrow> 1 \<le> d \<and> d \<le> 6)"

text \<open>A run in which every die shows 1 to 6 and every move is a valid one.\<close>

fun legalRun :: "game_state \<Rightarrow> op list \<Rightarrow> bool" where
  "legalRun g [] = True"
| "legalRun g (RollOp d # ops) =
     (1 \<le> d \<and> d \<le> 6
      \<and> (case rollLocalDice d g of Inl e \<Rightarrow> False | Inr g' \<Rightarrow> legalRun g' ops))"
| "legalRun g (MoveOp t # ops) =
     ((case getValidMovesLocal g of Inl e \<Rightarrow> False | Inr ms \<Rightarrow> t \<in> set (map tokenId ms))
      \<and> (case moveLocalToken g t of Inl e \<Rightarrow> False | Inr g' \<Rightarrow> legalRun g' ops))"

text \<open>Red has moved the token at step 8 by six steps, onto the token of green.\<close>

definition redCaptured :: game_state where
  "redCaptured = play
     [RollOp 6, MoveOp ''red_0'', RollOp 6, MoveOp ''red_0'', RollOp 2,
      RollOp 6, MoveOp ''green_0'', RollOp 1, RollOp 6, MoveOp ''red_0'']"

section \<open>Properties\<close>

subsection \<open>Array helpers\<close>

lemma nth_opt_Some_iff: "nth_opt xs i = Some x \<longleftrightarrow> i < length xs \<and> xs ! i = x"
  by (auto simp: nth_opt_def)

lemma nth_opt_None_iff: "nth_opt xs i = None \<longleftrightarrow> length xs \<le> i"
  by (auto simp: nth_opt_def)

lemma nth_opt_in_range: "i < length xs \<Longrightarrow> nth_opt xs i = Some (xs ! i)"
  by (simp add: nth_opt_def)

lemma findIndex_None_iff: "findIndex P xs = None \<longleftrightarrow> (\<forall>x\<in>set xs. \<not> P x)"
  by (induction xs) auto

lemma findIndex_Some_iff:
  "findIndex P xs = Some k \<longleftrightarrow> k < length xs \<and> P (xs ! k) \<and> (\<forall>j<k. \<not> P (xs ! j))"
proof (induction xs arbitrary: k)
  case Nil
  then show ?case by simp
next
  case (Cons x xs)
  show ?case
  proof (cases "P x")
    case True
    then show ?thesis by (cases k) auto
  next
    case False
    show ?thesis
    proof (cases k)
      case 0
      with False show ?thesis by auto
    next
      case (Suc m)
      have "(\<forall>j<Suc m. \<not> P ((x # xs) ! j)) \<longleftrightarrow> (\<forall>j<m. \<not> P (xs ! j))"
        using False by (auto simp: less_Suc_eq_0_disj)
      with False Suc Cons.IH [of m] show ?thesis by auto
    qed
  qed
qed

subsection \<open>The shape of a move\<close>

text \<open>
  \<open>moveLocalToken\<close> either returns the state with another message (the three refusals)
  or the state that \<open>finishMove\<close> builds from the moved token.
\<close>

lemma moveLocalToken_cases:
  assumes "moveLocalToken g tokId = Inr g'"
  shows "(\<exists>m. g' = g\<lparr>message := m\<rparr>) \<or>
         (\<exists>k tok msg cell. \<not> gameOver g \<and> currentPlayerIndex g < length (players g)
            \<and> findIndex (\<lambda>t. id_tok t = tokId) (tokens (players g ! currentPlayerIndex g)) = Some k
            \<and> moveToken (players g ! currentPlayerIndex g)
                 (tokens (players g ! currentPlayerIndex g) ! k) (diceValue g) = Moved tok msg cell
            \<and> g' = finishMove g tokId k tok msg (capturedToken g cell))"
  using assms unfolding moveLocalToken_def
  by (auto simp: nth_opt_Some_iff split: if_splits option.splits moved.splits)

lemma moveLocalToken_applied:
  assumes "\<not> gameOver g" and "currentPlayerIndex g < length (players g)"
    and "findIndex (\<lambda>t. id_tok t = tokId) (tokens (players g ! currentPlayerIndex g)) = Some k"
    and "moveToken (players g ! currentPlayerIndex g)
           (tokens (players g ! currentPlayerIndex g) ! k) (diceValue g) = Moved tok msg cell"
  shows "moveLocalToken g tokId = Inr (finishMove g tokId k tok msg (capturedToken g cell))"
  using assms by (simp add: moveLocalToken_def nth_opt_in_range)

lemma moveHistory_finishMove:
  "moveHistory (finishMove g tokId k tok msg cap) =
     moveHistory g @ [\<lparr>mv_playerIndex = currentPlayerIndex g, mv_tokenId = tokId,
                        mv_diceValue = diceValue g\<rparr>]"
  by (simp add: finishMove_def Let_def)

lemma finishMove_dice:
  "diceValue (finishMove g tokId k tok msg cap) = None"
  "\<not> diceRolled (finishMove g tokId k tok msg cap)"
  "turnPhase (finishMove g tokId k tok msg cap) = Roll"
  "\<not> hasExtraTurn (finishMove g tokId k tok msg cap)"
  by (simp_all add: finishMove_def Let_def)

text \<open>
  The refusals that \<open>moveLocalToken\<close> does make: the game is over, the current player
  has no token of that id, the token is home, or it is in the base and the dice value
  is not six.
\<close>

lemma moveLocalToken_refuses:
  assumes "gameOver g
     \<or> (currentPlayerIndex g < length (players g)
          \<and> findIndex (\<lambda>t. id_tok t = tokId) (tokens (players g ! currentPlayerIndex g)) = None)
     \<or> (currentPlayerIndex g < length (players g)
          \<and> findIndex (\<lambda>t. id_tok t = tokId) (tokens (players g ! currentPlayerIndex g)) = Some k
          \<and> (state (tokens (players g ! currentPlayerIndex g) ! k) = Home
               \<or> (state (tokens (players g ! currentPlayerIndex g) ! k) = Base
                   \<and> diceValue g \<noteq> Some 6)))"
  shows "\<exists>m. moveLocalToken g tokId = Inr (g\<lparr>message := m\<rparr>)"
proof (cases "gameOver g")
  case True
  then have "moveLocalToken g tokId = Inr (g\<lparr>message := ''Game is over!''\<rparr>)"
    by (simp add: moveLocalToken_def)
  then show ?thesis by blast
next
  case False
  with assms consider
    "moveLocalToken g tokId = Inr (g\<lparr>message := ''Invalid token!''\<rparr>)"
    | "moveLocalToken g tokId = Inr (g\<lparr>message := ''Cannot move this token!''\<rparr>)"
    by (auto simp: moveLocalToken_def moveToken_def nth_opt_in_range)
  then show ?thesis by cases blast+
qed

subsection \<open>The state after an applied move\<close>

text \<open>
  C9. A move is applied exactly when a record is appended to the move history (a
  refusal changes the message only). Every state returned by an applied move has no
  dice value, \<open>diceRolled\<close> and \<open>hasExtraTurn\<close> false and the turn phase \<open>Roll\<close>,
  whether the mover keeps the turn or not and whether the game has just ended or not.
\<close>

theorem applied_move_resets_dice:
  assumes "moveLocalToken g tokId = Inr g'" and "moveHistory g' \<noteq> moveHistory g"
  shows "diceValue g' = None \<and> \<not> diceRolled g' \<and> turnPhase g' = Roll \<and> \<not> hasExtraTurn g'"
  using moveLocalToken_cases [OF assms(1)] assms(2)
  by (auto simp: finishMove_dice)

theorem applied_move_resets_dice_witness:
  "moveLocalToken redRolledSix ''red_0'' = Inr redLeftBase
   \<and> moveHistory redLeftBase \<noteq> moveHistory redRolledSix
   \<and> diceValue redRolledSix = Some 6 \<and> hasExtraTurn redRolledSix
   \<and> diceValue redLeftBase = None \<and> \<not> diceRolled redLeftBase
   \<and> turnPhase redLeftBase = Roll \<and> \<not> hasExtraTurn redLeftBase"
proof -
  have m: "moveLocalToken redRolledSix ''red_0'' = Inr redLeftBase"
    by code_simp
  have h: "moveHistory redLeftBase \<noteq> moveHistory redRolledSix"
    by code_simp
  have "diceValue redRolledSix = Some 6 \<and> hasExtraTurn redRolledSix"
    by code_simp
  with m h applied_move_resets_dice [OF m h] show ?thesis
    by simp
qed

subsection \<open>The board path\<close>

text \<open>
  C7. The path table of \<open>getBoardCoordinates\<close> has 53 entries, not 52: position 52 is
  answered from the table, with the first cell of the red home column, and only
  position 53 falls through to the centre. Position 51 is the cell below position 0, so
  the first 52 entries close the loop. The start offsets and the safe cells are the
  ones the claim lists.
\<close>

theorem pathCoords_has_53_entries:
  "length pathCoords = 53 \<and> getBoardCoordinates 52 = \<lparr>row = 13, col = 7\<rparr>
   \<and> getBoardCoordinates 53 = \<lparr>row = 7, col = 7\<rparr>
   \<and> getBoardCoordinates 51 = \<lparr>row = 14, col = 6\<rparr>
   \<and> getBoardCoordinates 0 = \<lparr>row = 13, col = 6\<rparr>
   \<and> map cfg_startPos PLAYER_CONFIGS = [0, 13, 26, 39]
   \<and> SAFE_SQUARES = [0, 8, 13, 21, 26, 34, 39, 47]"
  by (simp add: getBoardCoordinates_def pathCoords_def rc_def PLAYER_CONFIGS_def
        SAFE_SQUARES_def)

subsection \<open>getNextPlayerIndex\<close>

lemma nextLoop_spec:
  assumes "next < length ps" and "a \<le> length ps"
  shows "(if \<exists>j<length ps - a. \<not> hasFinished (ps ! ((next + j) mod length ps))
          then \<exists>k<length ps - a.
                 nextLoop ps cur next a = (next + k) mod length ps
                 \<and> \<not> hasFinished (ps ! ((next + k) mod length ps))
                 \<and> (\<forall>j<k. hasFinished (ps ! ((next + j) mod length ps)))
          else nextLoop ps cur next a = cur)"
  using assms
proof (induction ps cur "next" a rule: nextLoop.induct)
  case (1 ps cur nxt a)
  let ?n = "length ps"
  show ?case
  proof (cases "a < ?n")
    case False
    then show ?thesis by (simp add: nextLoop.simps [of ps cur nxt a])
  next
    case lt: True
    show ?thesis
    proof (cases "hasFinished (ps ! nxt)")
      case False
      have "nextLoop ps cur nxt a = nxt"
        using lt False by (simp add: nextLoop.simps [of ps cur nxt a])
      moreover have "(nxt + 0) mod ?n = nxt" using "1.prems" by simp
      ultimately have "\<exists>k<?n - a. nextLoop ps cur nxt a = (nxt + k) mod ?n
            \<and> \<not> hasFinished (ps ! ((nxt + k) mod ?n))
            \<and> (\<forall>j<k. hasFinished (ps ! ((nxt + j) mod ?n)))"
        using lt False by (intro exI [of _ 0]) simp
      moreover have "\<exists>j<?n - a. \<not> hasFinished (ps ! ((nxt + j) mod ?n))"
        using lt False \<open>(nxt + 0) mod ?n = nxt\<close> by (intro exI [of _ 0]) simp
      ultimately show ?thesis by simp
    next
      case fin: True
      let ?nx = "(nxt + 1) mod ?n"
      have step: "nextLoop ps cur nxt a = nextLoop ps cur ?nx (a + 1)"
        using lt fin by (simp add: nextLoop.simps [of ps cur nxt a])
      have shift: "(?nx + j) mod ?n = (nxt + Suc j) mod ?n" for j
        by (simp add: mod_add_left_eq)
      have nx: "?nx < ?n" using lt by (intro mod_less_divisor) auto
      have a1: "a + 1 \<le> ?n" using lt by simp
      have nn: "\<not> \<not> hasFinished (ps ! nxt)" using fin by simp
      note IH = "1.IH" [OF lt nn nx a1, unfolded shift]
      have z: "(nxt + 0) mod ?n = nxt" using "1.prems" by simp
      have ex_iff: "(\<exists>j<?n - a. \<not> hasFinished (ps ! ((nxt + j) mod ?n)))
          \<longleftrightarrow> (\<exists>j<?n - (a + 1). \<not> hasFinished (ps ! ((nxt + Suc j) mod ?n)))"
      proof
        assume "\<exists>j<?n - a. \<not> hasFinished (ps ! ((nxt + j) mod ?n))"
        then obtain j where j: "j < ?n - a" "\<not> hasFinished (ps ! ((nxt + j) mod ?n))" by blast
        with fin z have "j \<noteq> 0" by (cases j) auto
        then obtain j' where "j = Suc j'" by (cases j) auto
        with j show "\<exists>j<?n - (a + 1). \<not> hasFinished (ps ! ((nxt + Suc j) mod ?n))"
          by (intro exI [of _ j']) auto
      next
        assume "\<exists>j<?n - (a + 1). \<not> hasFinished (ps ! ((nxt + Suc j) mod ?n))"
        then obtain j where "j < ?n - (a + 1)" "\<not> hasFinished (ps ! ((nxt + Suc j) mod ?n))"
          by blast
        then show "\<exists>j<?n - a. \<not> hasFinished (ps ! ((nxt + j) mod ?n))"
          by (intro exI [of _ "Suc j"]) auto
      qed
      from IH have IHt: "(\<exists>j<?n - (a + 1). \<not> hasFinished (ps ! ((nxt + Suc j) mod ?n))) \<Longrightarrow>
            \<exists>k<?n - (a + 1). nextLoop ps cur ?nx (a + 1) = (nxt + Suc k) mod ?n
              \<and> \<not> hasFinished (ps ! ((nxt + Suc k) mod ?n))
              \<and> (\<forall>j<k. hasFinished (ps ! ((nxt + Suc j) mod ?n)))"
        and IHf: "\<not> (\<exists>j<?n - (a + 1). \<not> hasFinished (ps ! ((nxt + Suc j) mod ?n))) \<Longrightarrow>
            nextLoop ps cur ?nx (a + 1) = cur"
        by (simp_all split: if_splits)
      show ?thesis
      proof (cases "\<exists>j<?n - (a + 1). \<not> hasFinished (ps ! ((nxt + Suc j) mod ?n))")
        case False
        from IHf [OF False] have "nextLoop ps cur ?nx (a + 1) = cur" .
        with step have "nextLoop ps cur nxt a = cur" by simp
        moreover from False ex_iff
        have "\<not> (\<exists>j<?n - a. \<not> hasFinished (ps ! ((nxt + j) mod ?n)))" by blast
        ultimately show ?thesis by (simp only: if_False)
      next
        case True
        from IHt [OF True] obtain k where k: "k < ?n - (a + 1)"
          "nextLoop ps cur ?nx (a + 1) = (nxt + Suc k) mod ?n"
          "\<not> hasFinished (ps ! ((nxt + Suc k) mod ?n))"
          "\<forall>j<k. hasFinished (ps ! ((nxt + Suc j) mod ?n))"
          by blast
        have "\<forall>j<Suc k. hasFinished (ps ! ((nxt + j) mod ?n))"
        proof (intro allI impI)
          fix j assume "j < Suc k"
          then show "hasFinished (ps ! ((nxt + j) mod ?n))"
            using k(4) fin z by (cases j) auto
        qed
        with k step have "\<exists>k<?n - a. nextLoop ps cur nxt a = (nxt + k) mod ?n
            \<and> \<not> hasFinished (ps ! ((nxt + k) mod ?n))
            \<and> (\<forall>j<k. hasFinished (ps ! ((nxt + j) mod ?n)))"
          by (intro exI [of _ "Suc k"]) auto
        moreover from True ex_iff
        have "\<exists>j<?n - a. \<not> hasFinished (ps ! ((nxt + j) mod ?n))" by blast
        ultimately show ?thesis by (simp only: if_True)
      qed
    qed
  qed
qed

lemma cyclic_cover:
  fixes c n i :: nat
  assumes "i < n"
  shows "\<exists>j<n. (c + j) mod n = i"
proof -
  let ?j = "(i + n - c mod n) mod n"
  have "?j < n" using assms by simp
  moreover have "(c + ?j) mod n = i"
  proof -
    have "c mod n < n" using assms by simp
    have "(c + ?j) mod n = (c + (i + n - c mod n)) mod n"
      by (rule mod_add_right_eq)
    also have "\<dots> = (c mod n + (i + n - c mod n)) mod n"
      by (rule mod_add_left_eq [symmetric])
    also have "c mod n + (i + n - c mod n) = i + n"
      using \<open>c mod n < n\<close> by simp
    also have "(i + n) mod n = i" using assms by simp
    finally show ?thesis .
  qed
  ultimately show ?thesis by blast
qed

lemma getNextPlayerIndex_spec:
  assumes "\<exists>p\<in>set (players g). \<not> hasFinished p"
  shows "\<exists>k<length (players g).
           getNextPlayerIndex g = (currentPlayerIndex g + 1 + k) mod length (players g)
           \<and> \<not> hasFinished (players g ! getNextPlayerIndex g)
           \<and> (\<forall>j<k. hasFinished (players g ! ((currentPlayerIndex g + 1 + j) mod length (players g))))"
proof -
  let ?ps = "players g" and ?c = "currentPlayerIndex g"
  let ?n = "length ?ps"
  from assms obtain i where i: "i < ?n" "\<not> hasFinished (?ps ! i)"
    by (auto simp: in_set_conv_nth)
  then have pos: "0 < ?n" by fastforce
  from cyclic_cover [OF i(1), of "?c + 1"] obtain j where j: "j < ?n" "(?c + 1 + j) mod ?n = i"
    by blast
  have shift: "((?c + 1) mod ?n + j) mod ?n = (?c + 1 + j) mod ?n" for j
    by (simp add: mod_add_left_eq)
  have "((?c + 1) mod ?n + j) mod ?n = i"
    using j(2) by (simp only: shift)
  with i(2) j(1) have ex: "\<exists>j<?n - 0. \<not> hasFinished (?ps ! (((?c + 1) mod ?n + j) mod ?n))"
    by (intro exI [of _ j]) simp
  have "(?c + 1) mod ?n < ?n" using pos by simp
  from nextLoop_spec [OF this, of 0 ?c] ex
  have "\<exists>k<?n - 0. nextLoop ?ps ?c ((?c + 1) mod ?n) 0 = ((?c + 1) mod ?n + k) mod ?n
            \<and> \<not> hasFinished (?ps ! (((?c + 1) mod ?n + k) mod ?n))
            \<and> (\<forall>j<k. hasFinished (?ps ! (((?c + 1) mod ?n + j) mod ?n)))"
    by (simp only: if_True le0)
  then show ?thesis
    unfolding getNextPlayerIndex_def shift by auto
qed

lemma getNextPlayerIndex_all_finished:
  assumes "\<forall>p\<in>set (players g). hasFinished p"
  shows "getNextPlayerIndex g = currentPlayerIndex g"
proof (cases "players g = []")
  case True
  then show ?thesis by (simp add: getNextPlayerIndex_def nextLoop.simps)
next
  case False
  let ?ps = "players g" and ?c = "currentPlayerIndex g"
  let ?n = "length ?ps"
  have pos: "0 < ?n" using False by simp
  have "\<not> (\<exists>j<?n - 0. \<not> hasFinished (?ps ! (((?c + 1) mod ?n + j) mod ?n)))"
    using assms pos by (auto simp: all_set_conv_all_nth)
  moreover have "(?c + 1) mod ?n < ?n" using pos by simp
  from nextLoop_spec [OF this, of 0 ?c]
  have "if \<exists>j<?n - 0. \<not> hasFinished (?ps ! (((?c + 1) mod ?n + j) mod ?n))
        then \<exists>k<?n - 0. nextLoop ?ps ?c ((?c + 1) mod ?n) 0 = ((?c + 1) mod ?n + k) mod ?n
                 \<and> \<not> hasFinished (?ps ! (((?c + 1) mod ?n + k) mod ?n))
                 \<and> (\<forall>j<k. hasFinished (?ps ! (((?c + 1) mod ?n + j) mod ?n)))
        else nextLoop ?ps ?c ((?c + 1) mod ?n) 0 = ?c" by simp
  ultimately show ?thesis
    unfolding getNextPlayerIndex_def by (simp only: if_False)
qed

lemma getNextPlayerIndex_less:
  "currentPlayerIndex g < length (players g) \<Longrightarrow> getNextPlayerIndex g < length (players g)"
proof (cases "\<exists>p\<in>set (players g). \<not> hasFinished p")
  case True
  assume "currentPlayerIndex g < length (players g)"
  from getNextPlayerIndex_spec [OF True] show ?thesis
    by (metis mod_less_divisor gr_implies_not0 gr0I \<open>currentPlayerIndex g < length (players g)\<close>)
next
  case False
  assume "currentPlayerIndex g < length (players g)"
  with getNextPlayerIndex_all_finished [of g] False show ?thesis by auto
qed

subsection \<open>The players after a move\<close>

lemma applyCapture_length [simp]: "length (applyCapture ps pi k tok cap) = length ps"
  by (simp add: applyCapture_def)

lemma applyCapture_nth_mover:
  "pi < length ps \<Longrightarrow>
     applyCapture ps pi k tok cap ! pi = (ps ! pi)\<lparr>tokens := (tokens (ps ! pi))[k := tok]\<rparr>"
  by (simp add: applyCapture_def Let_def)

lemma applyCapture_nth_other:
  "i < length ps \<Longrightarrow> i \<noteq> pi \<Longrightarrow>
     applyCapture ps pi k tok cap ! i =
       (case cap of
          None \<Rightarrow> ps ! i
        | Some (ci, ct) \<Rightarrow>
            if i = ci
            then (ps ! i)\<lparr>tokens := (tokens (ps ! i))[ct := resetToken (tokens (ps ! i) ! ct)]\<rparr>
            else ps ! i)"
  by (simp add: applyCapture_def Let_def split: option.splits)

lemma length_players_finishMove [simp]:
  "length (players (finishMove g tokId k tok msg cap)) = length (players g)"
  by (simp add: finishMove_def Let_def)

lemma tokens_finishMove:
  "i < length (players g) \<Longrightarrow>
     tokens (players (finishMove g tokId k tok msg cap) ! i) =
     tokens (applyCapture (players g) (currentPlayerIndex g) k tok cap ! i)"
  by (cases "i = currentPlayerIndex g") (auto simp: finishMove_def Let_def)

lemma moved_token_finishMove:
  assumes "currentPlayerIndex g < length (players g)"
    and "k < length (tokens (players g ! currentPlayerIndex g))"
  shows "tokens (players (finishMove g tokId k tok msg cap) ! currentPlayerIndex g) ! k = tok"
  using assms by (simp add: tokens_finishMove applyCapture_nth_mover)

lemma js_rem_nonneg: "0 \<le> a \<Longrightarrow> js_rem a BOARD_SIZE = a mod 52"
  by (simp add: js_rem_def BOARD_SIZE_def)

subsection \<open>The acting token\<close>

text \<open>
  C1, as amended. An active token of the current player at step \<open>s\<close> is moved with the
  rolled value \<open>d\<close>, where \<open>s + d \<le> 58\<close> (the moves \<open>getValidMovesLocal\<close> lists).
  Then the move is applied and the token's \<open>stepsFromStart\<close> is \<open>s + d\<close>; if
  \<open>s + d = 58\<close> the token is \<open>Home\<close> with position and home stretch position \<open>-1\<close>;
  if \<open>52 < s + d < 58\<close> it stays \<open>Active\<close> with home stretch position
  \<open>s + d - 52 - 1\<close> and position \<open>-1\<close>; otherwise (\<open>s + d \<le> 52\<close>) it stays \<open>Active\<close>
  at position \<open>(startPos + s + d) mod 52\<close>.
\<close>

theorem active_move_within_path:
  assumes "\<not> gameOver g" and "currentPlayerIndex g < length (players g)"
    and "p = players g ! currentPlayerIndex g"
    and "findIndex (\<lambda>t. id_tok t = tokId) (tokens p) = Some k"
    and "state (tokens p ! k) = Active"
    and "s = stepsFromStart (tokens p ! k)" and "0 \<le> s" and "0 \<le> startPos p"
    and "diceValue g = Some d" and "1 \<le> d" and "d \<le> 6"
    and "s + d \<le> 58"
  shows "\<exists>g' t'. moveLocalToken g tokId = Inr g'
           \<and> t' = tokens (players g' ! currentPlayerIndex g) ! k
           \<and> stepsFromStart t' = s + d
           \<and> (s + d = 58 \<longrightarrow> state t' = Home \<and> position t' = - 1 \<and> homeStretchPos t' = - 1)
           \<and> (52 < s + d \<and> s + d < 58 \<longrightarrow>
                state t' = Active \<and> homeStretchPos t' = (s + d) - 52 - 1 \<and> position t' = - 1)
           \<and> (s + d \<le> 52 \<longrightarrow>
                state t' = Active \<and> position t' = (startPos p + s + d) mod 52)"
proof -
  let ?t = "tokens p ! k"
  have k: "k < length (tokens p)"
    using assms(4) by (simp add: findIndex_Some_iff)
  have "\<exists>tok msg cell. moveToken p ?t (diceValue g) = Moved tok msg cell
          \<and> stepsFromStart tok = s + d
          \<and> (s + d = 58 \<longrightarrow> state tok = Home \<and> position tok = - 1 \<and> homeStretchPos tok = - 1)
          \<and> (52 < s + d \<and> s + d < 58 \<longrightarrow>
                state tok = Active \<and> homeStretchPos tok = (s + d) - 52 - 1 \<and> position tok = - 1)
          \<and> (s + d \<le> 52 \<longrightarrow> state tok = Active \<and> position tok = (startPos p + s + d) mod 52)"
  proof -
    consider (home) "s + d = 58" | (stretch) "52 < s + d" "s + d < 58" | (track) "s + d \<le> 52"
      using assms(12) by linarith
    then show ?thesis
    proof cases
      case home
      with assms(5,6,9) show ?thesis
        by (simp add: moveToken_def Let_def num_of_def BOARD_SIZE_def HOME_STRETCH_LENGTH_def)
    next
      case stretch
      with assms(5,6,9) show ?thesis
        by (simp add: moveToken_def Let_def num_of_def BOARD_SIZE_def HOME_STRETCH_LENGTH_def)
    next
      case track
      moreover have "0 \<le> startPos p + (s + d)" using assms(7,8,10) by simp
      ultimately show ?thesis using assms(5,6,9)
        by (simp add: moveToken_def Let_def num_of_def js_rem_def BOARD_SIZE_def
              HOME_STRETCH_LENGTH_def add.assoc)
    qed
  qed
  then obtain tok msg cell where mv: "moveToken p ?t (diceValue g) = Moved tok msg cell"
    and st: "stepsFromStart tok = s + d"
    and c1: "s + d = 58 \<longrightarrow> state tok = Home \<and> position tok = - 1 \<and> homeStretchPos tok = - 1"
    and c2: "52 < s + d \<and> s + d < 58 \<longrightarrow>
               state tok = Active \<and> homeStretchPos tok = (s + d) - 52 - 1 \<and> position tok = - 1"
    and c3: "s + d \<le> 52 \<longrightarrow> state tok = Active \<and> position tok = (startPos p + s + d) mod 52"
    by blast
  have "moveLocalToken g tokId = Inr (finishMove g tokId k tok msg (capturedToken g cell))"
    using assms(1-4) mv by (intro moveLocalToken_applied) simp_all
  moreover have "tokens (players (finishMove g tokId k tok msg (capturedToken g cell))
                   ! currentPlayerIndex g) ! k = tok"
    using assms(2,3) k by (intro moved_token_finishMove) simp_all
  ultimately show ?thesis
    using st c1 c2 c3 by simp
qed

theorem active_move_within_path_witness:
  "\<not> gameOver redSecondSix
   \<and> currentPlayerIndex redSecondSix < length (players redSecondSix)
   \<and> findIndex (\<lambda>t. id_tok t = ''red_0'')
        (tokens (players redSecondSix ! currentPlayerIndex redSecondSix)) = Some 0
   \<and> state (tokens (players redSecondSix ! currentPlayerIndex redSecondSix) ! 0) = Active
   \<and> stepsFromStart (tokens (players redSecondSix ! currentPlayerIndex redSecondSix) ! 0) = 0
   \<and> startPos (players redSecondSix ! currentPlayerIndex redSecondSix) = 0
   \<and> diceValue redSecondSix = Some 6
   \<and> (\<exists>g'. moveLocalToken redSecondSix ''red_0'' = Inr g'
         \<and> stepsFromStart (tokens (players g' ! currentPlayerIndex redSecondSix) ! 0) = 6
         \<and> state (tokens (players g' ! currentPlayerIndex redSecondSix) ! 0) = Active
         \<and> position (tokens (players g' ! currentPlayerIndex redSecondSix) ! 0) = 6)"
proof -
  let ?p = "players redSecondSix ! currentPlayerIndex redSecondSix"
  have h1: "\<not> gameOver redSecondSix" by code_simp
  have h2: "currentPlayerIndex redSecondSix < length (players redSecondSix)" by code_simp
  have h4: "findIndex (\<lambda>t. id_tok t = ''red_0'') (tokens ?p) = Some 0" by code_simp
  have h5: "state (tokens ?p ! 0) = Active" by code_simp
  have h6: "stepsFromStart (tokens ?p ! 0) = 0" by code_simp
  have h8: "startPos ?p = 0" by code_simp
  have h9: "diceValue redSecondSix = Some 6" by code_simp
  from active_move_within_path [OF h1 h2 refl h4 h5 refl _ _ h9, unfolded h6 h8]
  have "\<exists>g'. moveLocalToken redSecondSix ''red_0'' = Inr g'
         \<and> stepsFromStart (tokens (players g' ! currentPlayerIndex redSecondSix) ! 0) = 6
         \<and> state (tokens (players g' ! currentPlayerIndex redSecondSix) ! 0) = Active
         \<and> position (tokens (players g' ! currentPlayerIndex redSecondSix) ! 0) = 6"
    by simp
  with h1 h2 h4 h5 h6 h8 h9 show ?thesis by simp
qed

text \<open>
  C1 as stated fails beyond step 58: with \<open>s = 57\<close> and \<open>d = 6\<close> the sum is neither 58
  nor between 52 and 58, and the token is not put at position \<open>(0 + 57 + 6) mod 52\<close>
  but in the home stretch branch, at position \<open>-1\<close> and home stretch position 10.
\<close>

theorem overshoot_leaves_main_track:
  "currentPlayerIndex redAt57 = 0
   \<and> state (tokens (players redAt57 ! 0) ! 0) = Active
   \<and> id_tok (tokens (players redAt57 ! 0) ! 0) = ''red_0''
   \<and> stepsFromStart (tokens (players redAt57 ! 0) ! 0) = 57
   \<and> diceValue redAt57 = Some 6
   \<and> startPos (players redAt57 ! 0) = 0
   \<and> tokenAfter (moveLocalToken redAt57 ''red_0'') 0 0 =
        Some \<lparr>id_tok = ''red_0'', state = Active, position = - 1, homeStretchPos = 10,
              stepsFromStart = 63\<rparr>
   \<and> map_option position (tokenAfter (moveLocalToken redAt57 ''red_0'') 0 0)
        \<noteq> Some ((startPos (players redAt57 ! 0) + 57 + 6) mod 52)"
  by code_simp

subsection \<open>Moves that are not refused\<close>

text \<open>
  C3. \<open>moveLocalToken\<close> does not refuse every move that \<open>getValidMovesLocal\<close>
  excludes. The token of red at step 57 is not among the valid moves for a six, yet the
  move is applied and the token is at step 63. With no dice value there is no valid
  move, yet the move of an active token is applied (by zero steps) and the turn passes
  to green.
\<close>

theorem overshoot_and_unrolled_moves_are_applied:
  "getValidMovesLocal redAt57 =
     Inr [\<lparr>tokenId = ''red_1'', tokenIndex = 1\<rparr>, \<lparr>tokenId = ''red_2'', tokenIndex = 2\<rparr>,
          \<lparr>tokenId = ''red_3'', tokenIndex = 3\<rparr>]
   \<and> moveLocalToken redAt57 ''red_0'' = Inr redOvershot
   \<and> stepsFromStart (tokens (players redAt57 ! 0) ! 0) = 57
   \<and> stepsFromStart (tokens (players redOvershot ! 0) ! 0) = 63
   \<and> length (moveHistory redOvershot) = length (moveHistory redAt57) + 1
   \<and> diceValue redLeftBase = None
   \<and> getValidMovesLocal redLeftBase = Inr []
   \<and> moveLocalToken redLeftBase ''red_0'' = Inr redMovedUnrolled
   \<and> currentPlayerIndex redLeftBase = 0
   \<and> currentPlayerIndex redMovedUnrolled = 1
   \<and> length (moveHistory redMovedUnrolled) = length (moveHistory redLeftBase) + 1"
  by code_simp

subsection \<open>The third six\<close>

text \<open>
  C5. When the current player has two consecutive sixes (or more) and the die shows a
  six, \<open>rollLocalDice\<close> returns a state with \<open>consecutiveSixes = 0\<close>, no dice value,
  the turn phase \<open>Roll\<close> and the same players and move history (no move is applied,
  whatever the tokens are); the current player is the one \<open>getNextPlayerIndex\<close>
  gives, that is, the first player after the current one, in cyclic order, who has not
  finished.
\<close>

theorem third_six_forfeits_turn:
  assumes "\<not> gameOver g" and "turnPhase g = Roll" and "2 \<le> consecutiveSixes g"
    and "currentPlayerIndex g < length (players g)"
  shows "\<exists>g'. rollLocalDice 6 g = Inr g'
           \<and> consecutiveSixes g' = 0 \<and> diceValue g' = None \<and> turnPhase g' = Roll
           \<and> players g' = players g \<and> moveHistory g' = moveHistory g
           \<and> currentPlayerIndex g' = getNextPlayerIndex g
           \<and> ((\<exists>p\<in>set (players g). \<not> hasFinished p) \<longrightarrow>
                (\<exists>k<length (players g).
                   currentPlayerIndex g' = (currentPlayerIndex g + 1 + k) mod length (players g)
                   \<and> \<not> hasFinished (players g ! currentPlayerIndex g')
                   \<and> (\<forall>j<k. hasFinished
                         (players g ! ((currentPlayerIndex g + 1 + j) mod length (players g))))))"
proof -
  let ?new = "g\<lparr>diceValue := Some 6, diceRolled := True,
                consecutiveSixes := consecutiveSixes g + 1\<rparr>"
  have nx: "getNextPlayerIndex ?new = getNextPlayerIndex g"
    by (simp add: getNextPlayerIndex_def)
  have "getNextPlayerIndex g < length (players g)"
    using assms(4) by (rule getNextPlayerIndex_less)
  then obtain g' where r: "rollLocalDice 6 g = Inr g'"
    and f: "consecutiveSixes g' = 0" "diceValue g' = None" "turnPhase g' = Roll"
      "players g' = players g" "moveHistory g' = moveHistory g"
      "currentPlayerIndex g' = getNextPlayerIndex g"
    using assms by (simp add: rollLocalDice_def Let_def nx nth_opt_in_range)
  show ?thesis
    using r f getNextPlayerIndex_spec [of g] by auto
qed

theorem third_six_forfeits_turn_witness:
  "\<not> gameOver redTwoSixes \<and> turnPhase redTwoSixes = Roll \<and> consecutiveSixes redTwoSixes = 2
   \<and> currentPlayerIndex redTwoSixes = 0 \<and> length (players redTwoSixes) = 2
   \<and> (\<exists>g'. rollLocalDice 6 redTwoSixes = Inr g'
         \<and> consecutiveSixes g' = 0 \<and> diceValue g' = None \<and> turnPhase g' = Roll
         \<and> players g' = players redTwoSixes \<and> moveHistory g' = moveHistory redTwoSixes
         \<and> currentPlayerIndex g' = 1)"
proof -
  have h1: "\<not> gameOver redTwoSixes" by code_simp
  have h2: "turnPhase redTwoSixes = Roll" by code_simp
  have h3: "consecutiveSixes redTwoSixes = 2" by code_simp
  have h4: "currentPlayerIndex redTwoSixes = 0" by code_simp
  have h5: "length (players redTwoSixes) = 2" by code_simp
  have h6: "getNextPlayerIndex redTwoSixes = 1" by code_simp
  have "\<exists>g'. rollLocalDice 6 redTwoSixes = Inr g'
         \<and> consecutiveSixes g' = 0 \<and> diceValue g' = None \<and> turnPhase g' = Roll
         \<and> players g' = players redTwoSixes \<and> moveHistory g' = moveHistory redTwoSixes
         \<and> currentPlayerIndex g' = 1"
    using third_six_forfeits_turn [OF h1 h2, of] h3 h4 h5 h6 by auto
  with h1 h2 h3 h4 h5 show ?thesis by simp
qed

subsection \<open>checkCapture\<close>



lemma captureLoop_Some:
  assumes "captureLoop ps i0 pi c = Some (i, t)"
  shows "i0 \<le> i \<and> i - i0 < length ps \<and> i \<noteq> pi
         \<and> t < length (tokens (ps ! (i - i0)))
         \<and> onCell c (tokens (ps ! (i - i0)) ! t)
         \<and> (\<forall>u<t. \<not> onCell c (tokens (ps ! (i - i0)) ! u))
         \<and> (\<forall>j<i - i0. i0 + j \<noteq> pi \<longrightarrow> (\<forall>x\<in>set (tokens (ps ! j)). \<not> onCell c x))"
  using assms
proof (induction ps arbitrary: i0)
  case Nil
  then show ?case by simp
next
  case (Cons p ps)
  show ?case
  proof (cases "i0 \<noteq> pi \<and> findIndex (onCell c) (tokens p) \<noteq> None")
    case True
    then obtain t' where f: "findIndex (onCell c) (tokens p) = Some t'" by auto
    with True Cons.prems have "i = i0" "t = t'" by auto
    with True f show ?thesis by (auto simp: findIndex_Some_iff)
  next
    case False
    then have rec: "captureLoop ps (Suc i0) pi c = Some (i, t)"
      using Cons.prems by (auto split: if_splits option.splits)
    from Cons.IH [OF rec]
    have ih: "Suc i0 \<le> i" "i - Suc i0 < length ps" "i \<noteq> pi"
      "t < length (tokens (ps ! (i - Suc i0)))"
      "onCell c (tokens (ps ! (i - Suc i0)) ! t)"
      "\<forall>u<t. \<not> onCell c (tokens (ps ! (i - Suc i0)) ! u)"
      "\<forall>j<i - Suc i0. Suc i0 + j \<noteq> pi \<longrightarrow> (\<forall>x\<in>set (tokens (ps ! j)). \<not> onCell c x)"
      by auto
    from ih(1) have d: "i - i0 = Suc (i - Suc i0)" by simp
    have head: "i0 \<noteq> pi \<longrightarrow> (\<forall>x\<in>set (tokens p). \<not> onCell c x)"
      using False by (auto simp: findIndex_None_iff)
    have "\<forall>j<i - i0. i0 + j \<noteq> pi \<longrightarrow> (\<forall>x\<in>set (tokens ((p # ps) ! j)). \<not> onCell c x)"
    proof (intro allI impI)
      fix j assume j: "j < i - i0" "i0 + j \<noteq> pi"
      show "\<forall>x\<in>set (tokens ((p # ps) ! j)). \<not> onCell c x"
      proof (cases j)
        case 0
        with j head show ?thesis by simp
      next
        case (Suc j')
        with j d ih(7) show ?thesis by simp
      qed
    qed
    with ih d show ?thesis by simp
  qed
qed


lemma checkCapture_Some:
  assumes "checkCapture g pi c = Some (i, t)"
  shows "c \<notin> set SAFE_SQUARES" "i < length (players g)" "i \<noteq> pi"
    "t < length (tokens (players g ! i))"
    "onCell c (tokens (players g ! i) ! t)"
    "\<forall>u<t. \<not> onCell c (tokens (players g ! i) ! u)"
    "\<forall>j<i. j \<noteq> pi \<longrightarrow> (\<forall>x\<in>set (tokens (players g ! j)). \<not> onCell c x)"
proof -
  from assms show safe: "c \<notin> set SAFE_SQUARES"
    by (auto simp: checkCapture_def split: if_splits)
  with assms have "captureLoop (players g) 0 pi c = Some (i, t)"
    by (simp add: checkCapture_def)
  from captureLoop_Some [OF this]
  show "i < length (players g)" "i \<noteq> pi"
    "t < length (tokens (players g ! i))"
    "onCell c (tokens (players g ! i) ! t)"
    "\<forall>u<t. \<not> onCell c (tokens (players g ! i) ! u)"
    "\<forall>j<i. j \<noteq> pi \<longrightarrow> (\<forall>x\<in>set (tokens (players g ! j)). \<not> onCell c x)"
    by simp_all
qed



lemma capturedToken_Some [simp]:
  "capturedToken g (Some c) = checkCapture g (currentPlayerIndex g) c"
  by (simp add: capturedToken_def)

lemma capturedToken_None [simp]: "capturedToken g None = None"
  by (simp add: capturedToken_def)


text \<open>The tokens of a player other than the mover, after the capture is applied.\<close>

lemma opponent_tokens_finishMove:
  assumes "i < length (players g)" and "i \<noteq> currentPlayerIndex g"
  shows "tokens (players (finishMove g tokId k tok msg cap) ! i) =
           (case cap of
              None \<Rightarrow> tokens (players g ! i)
            | Some (ci, ct) \<Rightarrow>
                if i = ci
                then (tokens (players g ! i))[ct := resetToken (tokens (players g ! i) ! ct)]
                else tokens (players g ! i))"
  using assms
  by (simp add: tokens_finishMove applyCapture_nth_other split: option.splits)

subsection \<open>Capture\<close>

text \<open>
  The two branches of \<open>moveLocalToken\<close> that put a token on the main track hand the
  landing cell to \<open>checkCapture\<close>: leaving the base on a six, and an active token whose
  new step count is at most \<open>BOARD_SIZE\<close>. The home and the home stretch branches
  check nothing.
\<close>

lemma moveToken_checks_iff:
  "(\<exists>tok msg. moveToken p t d = Moved tok msg (Some c)) \<longleftrightarrow>
     (state t = Base \<and> d = Some 6 \<and> c = startPos p)
   \<or> (state t = Active \<and> stepsFromStart t + num_of d \<le> BOARD_SIZE
        \<and> c = js_rem (startPos p + (stepsFromStart t + num_of d)) BOARD_SIZE)"
  by (auto simp: moveToken_def Let_def BOARD_SIZE_def HOME_STRETCH_LENGTH_def)




subsection \<open>What the generated id touches\<close>

lemma getNextPlayerIndex_id [simp]:
  "getNextPlayerIndex (g\<lparr>id_game := x\<rparr>) = getNextPlayerIndex g"
  by (simp add: getNextPlayerIndex_def)

lemma checkCapture_id [simp]: "checkCapture (g\<lparr>id_game := x\<rparr>) = checkCapture g"
  by (simp add: checkCapture_def fun_eq_iff)

lemma capturedToken_id [simp]: "capturedToken (g\<lparr>id_game := x\<rparr>) = capturedToken g"
  by (simp add: capturedToken_def fun_eq_iff split: option.splits)

lemma getValidMovesLocal_id [simp]:
  "getValidMovesLocal (g\<lparr>id_game := x\<rparr>) = getValidMovesLocal g"
  by (simp add: getValidMovesLocal_def split: option.splits)

lemma finishMove_id:
  "finishMove (g\<lparr>id_game := x\<rparr>) tokId k tok msg cap
     = (finishMove g tokId k tok msg cap)\<lparr>id_game := x\<rparr>"
  by (rule game_state.equality) (simp_all add: finishMove_def Let_def getNextPlayerIndex_def split del: if_split cong: if_cong option.case_cong prod.case_cong)

lemma moveLocalToken_id:
  "moveLocalToken (g\<lparr>id_game := x\<rparr>) tokId
     = map_sum (\<lambda>e. e) (\<lambda>g'. g'\<lparr>id_game := x\<rparr>) (moveLocalToken g tokId)"
  by (simp add: moveLocalToken_def finishMove_id split: option.splits moved.splits)

text \<open>
  C8 as stated fails for \<open>createLocalGame\<close>: two calls with the same configuration
  return different states when \<^verbatim>\<open>generateId()\<close>, which reads the clock and
  \<^verbatim>\<open>Math.random()\<close>, returns different strings.
\<close>

theorem createLocalGame_differs_by_id:
  "createLocalGame ''game_1'' exampleConfig \<noteq> createLocalGame ''game_2'' exampleConfig"
  by code_simp

text \<open>
  C8, as amended. Besides the die draw, the generated id is the only thing drawn from
  outside: two calls of \<open>createLocalGame\<close> with the same configuration return the same
  result up to the field \<open>id_game\<close>, and the id reaches nothing else, neither the valid
  moves nor any other field of the state a move returns.
\<close>

theorem only_the_id_is_drawn:
  "createLocalGame gid2 cfg
     = map_sum (\<lambda>e. e) (\<lambda>g. g\<lparr>id_game := gid2\<rparr>) (createLocalGame gid1 cfg)
   \<and> getValidMovesLocal (g\<lparr>id_game := gid2\<rparr>) = getValidMovesLocal g
   \<and> moveLocalToken (g\<lparr>id_game := gid2\<rparr>) tokId
     = map_sum (\<lambda>e. e) (\<lambda>g'. g'\<lparr>id_game := gid2\<rparr>) (moveLocalToken g tokId)"
proof (intro conjI)
  show "createLocalGame gid2 cfg
     = map_sum (\<lambda>e. e) (\<lambda>g. g\<lparr>id_game := gid2\<rparr>) (createLocalGame gid1 cfg)"
    by (simp add: createLocalGame_def Let_def split: sum.splits list.splits)
  show "getValidMovesLocal (g\<lparr>id_game := gid2\<rparr>) = getValidMovesLocal g"
    by (rule getValidMovesLocal_id)
  show "moveLocalToken (g\<lparr>id_game := gid2\<rparr>) tokId
     = map_sum (\<lambda>e. e) (\<lambda>g'. g'\<lparr>id_game := gid2\<rparr>) (moveLocalToken g tokId)"
    by (rule moveLocalToken_id)
qed

subsection \<open>The shape of a roll\<close>

text \<open>
  \<open>rollLocalDice\<close> returns the state with another message (the two refusals), or a
  state with the same players and no dice (the third six, no valid move), or what
  \<open>moveLocalToken\<close> returns for the single valid move, or the rolled state in the
  phase \<open>Move\<close>.
\<close>

lemma rollLocalDice_cases:
  assumes "rollLocalDice d g = Inr g'"
  shows "(\<exists>m. g' = g\<lparr>message := m\<rparr>)
       \<or> (\<not> gameOver g \<and> turnPhase g = Roll \<and> players g' = players g
            \<and> finishOrder g' = finishOrder g \<and> gameOver g' = gameOver g
            \<and> winner g' = winner g \<and> moveHistory g' = moveHistory g
            \<and> diceValue g' = None \<and> turnPhase g' = Roll)
       \<or> (\<not> gameOver g \<and> turnPhase g = Roll
            \<and> (\<exists>m. getValidMovesLocal (newState d g) = Inr [m]
                   \<and> moveLocalToken (newState d g) (tokenId m) = Inr g'))
       \<or> (\<not> gameOver g \<and> turnPhase g = Roll
            \<and> (\<exists>m. g' = (newState d g)\<lparr>turnPhase := Move, message := m\<rparr>)
            \<and> (\<exists>ms. getValidMovesLocal (newState d g) = Inr ms \<and> 2 \<le> length ms))"
proof (cases "gameOver g \<or> turnPhase g \<noteq> Roll")
  case True
  have "\<exists>m. g' = g\<lparr>message := m\<rparr>"
  proof (cases "gameOver g")
    case True
    with assms have "g' = g\<lparr>message := ''Game is over!''\<rparr>"
      by (simp add: rollLocalDice_def)
    then show ?thesis by blast
  next
    case False
    with True assms have "g' = g\<lparr>message := ''You must move a token first!''\<rparr>"
      by (simp add: rollLocalDice_def)
    then show ?thesis by blast
  qed
  then show ?thesis by blast
next
  case ok: False
  show ?thesis
  proof (cases "d = 6 \<and> consecutiveSixes g + 1 \<ge> 3")
    case True
    with ok assms have "players g' = players g \<and> finishOrder g' = finishOrder g
        \<and> gameOver g' = gameOver g \<and> winner g' = winner g \<and> moveHistory g' = moveHistory g
        \<and> diceValue g' = None \<and> turnPhase g' = Roll"
      by (auto simp: rollLocalDice_def Let_def split: option.splits)
    with ok show ?thesis by simp
  next
    case False
    have r: "(case getValidMovesLocal (newState d g) of
          Inl e \<Rightarrow> Inl e
        | Inr validMoves \<Rightarrow>
            (case validMoves of
               [] \<Rightarrow>
                 (case nth_opt (players g) (currentPlayerIndex g) of
                    None \<Rightarrow> Inl TypeError
                  | Some cur \<Rightarrow>
                      if hasExtraTurn (newState d g) then
                        Inr ((newState d g)\<lparr>turnPhase := Roll, diceRolled := False,
                               diceValue := None, hasExtraTurn := False,
                               message := str_of (name cur) @ '' rolled '' @ show_int d
                                 @ '' but has no valid moves. Roll again!''\<rparr>)
                      else
                        (let nextPlayerIndex = getNextPlayerIndex (newState d g)
                         in case nth_opt (players (newState d g)) nextPlayerIndex of
                              None \<Rightarrow> Inl TypeError
                            | Some nxt \<Rightarrow>
                                Inr ((newState d g)\<lparr>turnPhase := Roll, diceRolled := False,
                                       diceValue := None,
                                       currentPlayerIndex := nextPlayerIndex,
                                       message := str_of (name cur) @ '' rolled ''
                                         @ show_int d @ '' but has no valid moves. ''
                                         @ str_of (name nxt) @ '''s turn.''\<rparr>)))
             | [m] \<Rightarrow> moveLocalToken (newState d g) (tokenId m)
             | _ \<Rightarrow>
                 (case nth_opt (players g) (currentPlayerIndex g) of
                    None \<Rightarrow> Inl TypeError
                  | Some cur \<Rightarrow>
                      Inr ((newState d g)\<lparr>turnPhase := Move,
                             message := str_of (name cur) @ '' rolled '' @ show_int d
                               @ ''. Choose a token to move.''\<rparr>)))) = Inr g'"
    proof -
      from ok have ng: "\<not> gameOver g" and ph: "turnPhase g = Roll" by simp_all
      from assms show ?thesis
        unfolding rollLocalDice_def Let_def newState_def
        using ng ph False by (simp only: if_False simp_thms)
    qed
    then obtain ms where ms: "getValidMovesLocal (newState d g) = Inr ms"
      by (cases "getValidMovesLocal (newState d g)") auto
    show ?thesis
    proof (cases ms)
      case Nil
      with r ms have "players g' = players g \<and> finishOrder g' = finishOrder g
        \<and> gameOver g' = gameOver g \<and> winner g' = winner g \<and> moveHistory g' = moveHistory g
        \<and> diceValue g' = None \<and> turnPhase g' = Roll"
        by (auto simp: Let_def newState_def split: option.splits if_splits)
      with ok show ?thesis by simp
    next
      case (Cons m rest)
      show ?thesis
      proof (cases rest)
        case Nil
        with Cons r ms ok show ?thesis by auto
      next
        case (Cons m2 rest2)
        with \<open>ms = m # rest\<close> r ms
        have "\<exists>m. g' = (newState d g)\<lparr>turnPhase := Move, message := m\<rparr>"
          by (auto split: option.splits)
        moreover have "2 \<le> length ms" using Cons \<open>ms = m # rest\<close> by simp
        ultimately show ?thesis using ok ms by blast
      qed
    qed
  qed
qed

lemma newState_simps [simp]:
  "players (newState d g) = players g"
  "currentPlayerIndex (newState d g) = currentPlayerIndex g"
  "finishOrder (newState d g) = finishOrder g"
  "gameOver (newState d g) = gameOver g"
  "winner (newState d g) = winner g"
  "moveHistory (newState d g) = moveHistory g"
  "diceValue (newState d g) = Some d"
  "hasExtraTurn (newState d g) = (d = 6)"
  by (simp_all add: newState_def)

subsection \<open>Created games\<close>

lemma playersLoop_all:
  assumes "playersLoop names colors n i ps = Inr qs"
    and "\<forall>p\<in>set ps. P p"
    and "\<And>names colors j p. newPlayer names colors j = Inr p \<Longrightarrow> P p"
  shows "\<forall>p\<in>set qs. P p"
  using assms(1,2)
proof (induction names colors n i ps rule: playersLoop.induct)
  case (1 names colors n i ps)
  show ?case
  proof (cases "int i < n")
    case False
    with "1.prems" show ?thesis by (simp add: playersLoop.simps [of names colors n i ps])
  next
    case True
    with "1.prems"(1) obtain p where p: "newPlayer names colors i = Inr p"
      and rec: "playersLoop names colors n (Suc i) (ps @ [p]) = Inr qs"
      by (auto simp: playersLoop.simps [of names colors n i ps] split: sum.splits)
    have "\<forall>q\<in>set (ps @ [p]). P q"
      using "1.prems"(2) assms(3) [OF p] by auto
    from "1.IH" [OF True p rec this] show ?thesis .
  qed
qed

lemma createLocalGame_Inr:
  assumes "createLocalGame gid cfg = Inr g"
  shows "\<exists>n. playersLoop (playerNames cfg) (playerColors cfg) n 0 [] = Inr (players g)"
    and "finishOrder g = []" and "\<not> gameOver g" and "diceValue g = None"
    and "players g \<noteq> []"
  using assms
  by (auto simp: createLocalGame_def Let_def split: sum.splits list.splits)

lemma created_all:
  assumes "createLocalGame gid cfg = Inr g"
    and "\<And>names colors j p. newPlayer names colors j = Inr p \<Longrightarrow> P p"
  shows "\<forall>p\<in>set (players g). P p"
proof -
  from createLocalGame_Inr(1) [OF assms(1)] obtain n
    where "playersLoop (playerNames cfg) (playerColors cfg) n 0 [] = Inr (players g)" ..
  from playersLoop_all [OF this, of P] assms(2) show ?thesis by simp
qed

lemma find_Some_mem: "find P xs = Some x \<Longrightarrow> x \<in> set xs"
  by (induction xs) (auto split: if_splits)

lemma nth_opt_Some_mem: "nth_opt xs i = Some x \<Longrightarrow> x \<in> set xs"
  by (auto simp: nth_opt_def split: if_splits)

lemma newPlayer_config:
  assumes "newPlayer names colors j = Inr p"
  shows "\<exists>k\<in>set PLAYER_CONFIGS. startPos p = cfg_startPos k"
proof -
  let ?c = "str_or (nth_opt colors j) (nth_opt defaultColors j)"
  let ?config = "case find (\<lambda>k. Some (cfg_color k) = ?c) PLAYER_CONFIGS of
                   Some k \<Rightarrow> Some k
                 | None \<Rightarrow> nth_opt PLAYER_CONFIGS j"
  from assms obtain k where k: "?config = Some k" and s: "startPos p = cfg_startPos k"
    by (cases ?config) (auto simp: newPlayer_def Let_def)
  from k have "k \<in> set PLAYER_CONFIGS"
    by (auto split: option.splits dest: find_Some_mem nth_opt_Some_mem)
  with s show ?thesis by blast
qed

lemma newPlayer_startPos:
  assumes "newPlayer names colors j = Inr p"
  shows "startPos p \<in> {0, 13, 26, 39}"
  using newPlayer_config [OF assms] by (auto simp: PLAYER_CONFIGS_def)

subsection \<open>What a move keeps\<close>

lemma players_finishMove_nth:
  assumes "i < length (players g)"
  shows "players (finishMove g tokId k tok msg cap) ! i =
     (let q = applyCapture (players g) (currentPlayerIndex g) k tok cap ! i
      in if i = currentPlayerIndex g \<and> list_all (\<lambda>t. state t = Home) (tokens q)
              \<and> \<not> hasFinished q
         then q\<lparr>hasFinished := True, finishOrder_p := int (length (finishOrder g))\<rparr>
         else q)"
  using assms by (cases "i = currentPlayerIndex g") (auto simp: finishMove_def Let_def)

lemma applyCapture_startPos:
  "i < length ps \<Longrightarrow> startPos (applyCapture ps pi k tok cap ! i) = startPos (ps ! i)"
  by (cases "i = pi")
    (auto simp: applyCapture_nth_mover applyCapture_nth_other split: option.splits)

lemma applyCapture_hasFinished:
  "i < length ps \<Longrightarrow> hasFinished (applyCapture ps pi k tok cap ! i) = hasFinished (ps ! i)"
  by (cases "i = pi")
    (auto simp: applyCapture_nth_mover applyCapture_nth_other split: option.splits)

lemma finishMove_startPos:
  "i < length (players g) \<Longrightarrow>
     startPos (players (finishMove g tokId k tok msg cap) ! i) = startPos (players g ! i)"
  by (simp add: players_finishMove_nth Let_def applyCapture_startPos)

lemma moveLocalToken_length:
  "moveLocalToken g tokId = Inr g' \<Longrightarrow> length (players g') = length (players g)"
  by (auto dest!: moveLocalToken_cases)

lemma moveLocalToken_startPos:
  assumes "moveLocalToken g tokId = Inr g'" and "i < length (players g)"
  shows "startPos (players g' ! i) = startPos (players g ! i)"
  using moveLocalToken_cases [OF assms(1)] assms(2)
  by (auto simp: finishMove_startPos)

lemma rollLocalDice_length:
  "rollLocalDice d g = Inr g' \<Longrightarrow> length (players g') = length (players g)"
  by (auto dest!: rollLocalDice_cases dest: moveLocalToken_length)

lemma rollLocalDice_startPos:
  assumes "rollLocalDice d g = Inr g'" and "i < length (players g)"
  shows "startPos (players g' ! i) = startPos (players g ! i)"
  using rollLocalDice_cases [OF assms(1)] assms(2)
  by (auto dest: moveLocalToken_startPos)

lemma reachable_startPos:
  assumes "reachable g"
  shows "\<forall>p\<in>set (players g). startPos p \<in> {0, 13, 26, 39}"
  using assms
proof (induction rule: reachable.induct)
  case (created gid cfg g)
  then show ?case by (rule created_all) (rule newPlayer_startPos)
next
  case (rolled g d g')
  from rolled.IH rollLocalDice_length [OF rolled.hyps(4)]
    rollLocalDice_startPos [OF rolled.hyps(4)]
  show ?case by (simp add: all_set_conv_all_nth)
next
  case (moved g tokId g')
  from moved.IH moveLocalToken_length [OF moved.hyps(2)]
    moveLocalToken_startPos [OF moved.hyps(2)]
  show ?case by (simp add: all_set_conv_all_nth)
qed

lemma start_cells_safe: "c \<in> {0, 13, 26, 39} \<Longrightarrow> c \<in> set SAFE_SQUARES"
  by (auto simp: SAFE_SQUARES_def)

lemma players_finishMove_other:
  assumes "i < length (players g)" and "i \<noteq> currentPlayerIndex g"
  shows "players (finishMove g tokId k tok msg None) ! i = players g ! i"
  using assms by (simp add: players_finishMove_nth applyCapture_nth_other)

lemma moveToken_Base:
  assumes "moveToken p t d = Moved tok msg cell" and "state t = Base"
  shows "cell = Some (startPos p)"
  using assms by (auto simp: moveToken_def split: if_splits)

subsection \<open>Leaving the base\<close>

text \<open>
  C10. In every reachable state every player's \<open>startPos\<close> is one of 0, 13, 26, 39,
  which are safe squares, so \<open>checkCapture\<close> at a start cell returns no capture,
  whatever the state and the mover. Hence a move of a token that is in the base, on a
  reachable state or on the rolled state \<open>rollLocalDice\<close> builds from one (any state
  with the same players), leaves every other player as it was.
\<close>

theorem leaving_base_never_captures:
  assumes "reachable g"
  shows "(\<forall>p\<in>set (players g).
            startPos p \<in> {0, 13, 26, 39} \<and> startPos p \<in> set SAFE_SQUARES
            \<and> (\<forall>s i. checkCapture s i (startPos p) = None))
       \<and> (\<forall>s tokId k g'.
            players s = players g \<and> currentPlayerIndex s < length (players s)
            \<and> findIndex (\<lambda>t. id_tok t = tokId) (tokens (players s ! currentPlayerIndex s)) = Some k
            \<and> state (tokens (players s ! currentPlayerIndex s) ! k) = Base
            \<and> moveLocalToken s tokId = Inr g'
            \<longrightarrow> (\<forall>i<length (players s). i \<noteq> currentPlayerIndex s \<longrightarrow>
                   players g' ! i = players s ! i))"
proof (intro conjI ballI allI impI)
  fix p assume p: "p \<in> set (players g)"
  with reachable_startPos [OF assms] show sp: "startPos p \<in> {0, 13, 26, 39}" by blast
  then show safe: "startPos p \<in> set SAFE_SQUARES" by (rule start_cells_safe)
  fix s i
  from safe show "checkCapture s i (startPos p) = None" by (simp add: checkCapture_def)
next
  fix s tokId k g' i
  assume a: "players s = players g \<and> currentPlayerIndex s < length (players s)
            \<and> findIndex (\<lambda>t. id_tok t = tokId) (tokens (players s ! currentPlayerIndex s)) = Some k
            \<and> state (tokens (players s ! currentPlayerIndex s) ! k) = Base
            \<and> moveLocalToken s tokId = Inr g'"
    and i: "i < length (players s)" "i \<noteq> currentPlayerIndex s"
  let ?p = "players s ! currentPlayerIndex s"
  from a have fk: "findIndex (\<lambda>t. id_tok t = tokId) (tokens ?p) = Some k"
    and sb: "state (tokens ?p ! k) = Base" by fast+
  from a have "?p \<in> set (players g)" by (metis nth_mem)
  with reachable_startPos [OF assms] have "startPos ?p \<in> set SAFE_SQUARES"
    by (blast intro: start_cells_safe)
  then have none: "checkCapture s (currentPlayerIndex s) (startPos ?p) = None"
    by (simp add: checkCapture_def)
  from a have mv: "moveLocalToken s tokId = Inr g'" by fast
  from moveLocalToken_cases [OF mv]
  show "players g' ! i = players s ! i"
  proof (elim disjE exE conjE)
    fix m assume "g' = s\<lparr>message := m\<rparr>"
    then show ?thesis by simp
  next
    fix k' tok msg cell
    assume f: "findIndex (\<lambda>t. id_tok t = tokId) (tokens ?p) = Some k'"
      and m: "moveToken ?p (tokens ?p ! k') (diceValue s) = Moved tok msg cell"
      and g': "g' = finishMove s tokId k' tok msg (capturedToken s cell)"
    from f fk have "k' = k" by simp
    with m sb have "cell = Some (startPos ?p)" by (auto dest: moveToken_Base)
    with g' none have "g' = finishMove s tokId k' tok msg None" by simp
    with i show ?thesis by (simp add: players_finishMove_other)
  qed
qed

lemma reachable_run:
  assumes "reachable g" and "list_all okOp ops" and "run g ops = Inr g'"
  shows "reachable g'"
  using assms
proof (induction ops arbitrary: g)
  case Nil
  then show ?case by simp
next
  case (Cons x ops)
  show ?case
  proof (cases x)
    case (RollOp d)
    with Cons.prems obtain g1 where g1: "rollLocalDice d g = Inr g1" "run g1 ops = Inr g'"
      by (auto split: sum.splits)
    from Cons.prems RollOp have "1 \<le> d" "d \<le> 6" by simp_all
    from reachable.rolled [OF Cons.prems(1) this g1(1)] Cons.IH g1(2) Cons.prems(2)
    show ?thesis by simp
  next
    case (MoveOp t)
    with Cons.prems obtain g1 where g1: "moveLocalToken g t = Inr g1" "run g1 ops = Inr g'"
      by (auto split: sum.splits)
    from reachable.moved [OF Cons.prems(1) g1(1)] Cons.IH g1(2) Cons.prems(2)
    show ?thesis by simp
  qed
qed

lemma run_append:
  "run g (ops @ ops') = (case run g ops of Inl e \<Rightarrow> Inl e | Inr g1 \<Rightarrow> run g1 ops')"
proof (induction ops arbitrary: g)
  case Nil
  then show ?case by simp
next
  case (Cons x ops)
  then show ?case by (cases x) (simp_all split: sum.splits)
qed

lemma run_play: "\<not> isl (run game0 ops) \<Longrightarrow> run game0 ops = Inr (play ops)"
  by (simp add: play_def)

lemma roll_play:
  assumes "\<not> isl (run game0 (ops @ [RollOp d]))"
  shows "rollLocalDice d (play ops) = Inr (play (ops @ [RollOp d]))"
proof -
  from assms have "\<not> isl (run game0 ops)"
    by (auto simp: run_append split: sum.splits)
  from run_play [OF this] run_play [OF assms] show ?thesis
    by (simp add: run_append split: sum.splits)
qed

lemma game0_created: "createLocalGame ''game_1'' exampleConfig = Inr game0"
  by code_simp

lemma reachable_play:
  assumes "list_all okOp ops" and "\<not> isl (run game0 ops)"
  shows "reachable (play ops)"
proof -
  have "reachable game0" using game0_created by (rule reachable.created)
  from reachable_run [OF this assms(1) run_play [OF assms(2)]] show ?thesis .
qed

theorem leaving_base_never_captures_witness:
  "reachable redRolledSix
   \<and> currentPlayerIndex redRolledSix = 0
   \<and> startPos (players redRolledSix ! 0) = 0
   \<and> findIndex (\<lambda>t. id_tok t = ''red_0'') (tokens (players redRolledSix ! 0)) = Some 0
   \<and> state (tokens (players redRolledSix ! 0) ! 0) = Base
   \<and> moveLocalToken redRolledSix ''red_0'' = Inr redLeftBase
   \<and> state (tokens (players redLeftBase ! 0) ! 0) = Active
   \<and> checkCapture redRolledSix 0 (startPos (players redRolledSix ! 0)) = None
   \<and> players redLeftBase ! 1 = players redRolledSix ! 1"
proof -
  have r: "reachable redRolledSix"
    unfolding redRolledSix_def
  proof (rule reachable_play)
    show "list_all okOp [RollOp 6]" by simp
    show "\<not> isl (run game0 [RollOp 6])" by code_simp
  qed
  have c: "currentPlayerIndex redRolledSix = 0" by code_simp
  have l: "length (players redRolledSix) = 2" by code_simp
  have s: "startPos (players redRolledSix ! 0) = 0" by code_simp
  have f: "findIndex (\<lambda>t. id_tok t = ''red_0'') (tokens (players redRolledSix ! 0)) = Some 0"
    by code_simp
  have b: "state (tokens (players redRolledSix ! 0) ! 0) = Base" by code_simp
  have m: "moveLocalToken redRolledSix ''red_0'' = Inr redLeftBase" by code_simp
  have a: "state (tokens (players redLeftBase ! 0) ! 0) = Active" by code_simp
  note t = leaving_base_never_captures [OF r]
  have mem: "players redRolledSix ! 0 \<in> set (players redRolledSix)"
    using l by (intro nth_mem) simp
  from t mem have "checkCapture redRolledSix 0 (startPos (players redRolledSix ! 0)) = None"
    by blast
  moreover from t have "players redRolledSix = players redRolledSix
            \<and> currentPlayerIndex redRolledSix < length (players redRolledSix)
            \<and> findIndex (\<lambda>t. id_tok t = ''red_0'')
                 (tokens (players redRolledSix ! currentPlayerIndex redRolledSix)) = Some 0
            \<and> state (tokens (players redRolledSix ! currentPlayerIndex redRolledSix) ! 0) = Base
            \<and> moveLocalToken redRolledSix ''red_0'' = Inr redLeftBase
            \<longrightarrow> (\<forall>i<length (players redRolledSix). i \<noteq> currentPlayerIndex redRolledSix \<longrightarrow>
                   players redLeftBase ! i = players redRolledSix ! i)"
    by blast
  with c l f b m have "players redLeftBase ! 1 = players redRolledSix ! 1" by simp
  ultimately show ?thesis using r c s f b m a by simp
qed

subsection \<open>Finishing\<close>

lemma finishInv_message [simp]: "finishInv (g\<lparr>message := m\<rparr>) = finishInv g"
  by (simp add: finishInv_def)

lemma finishInv_newState [simp]: "finishInv (newState d g) = finishInv g"
  by (simp add: finishInv_def)

lemma finishInv_cong:
  "players g' = players g \<Longrightarrow> finishOrder g' = finishOrder g \<Longrightarrow> gameOver g' = gameOver g
     \<Longrightarrow> finishInv g' = finishInv g"
  by (simp add: finishInv_def)

lemma finishMove_first_finisher:
  assumes "currentPlayerIndex g < length (players g)" and "finishOrder g = []"
  shows "gameOver (finishMove g tokId k tok msg cap) \<longleftrightarrow>
           list_all (\<lambda>t. state t = Home) ((tokens (players g ! currentPlayerIndex g))[k := tok])
           \<and> \<not> hasFinished (players g ! currentPlayerIndex g)"
    and "finishOrder (finishMove g tokId k tok msg cap) =
           (if list_all (\<lambda>t. state t = Home) ((tokens (players g ! currentPlayerIndex g))[k := tok])
               \<and> \<not> hasFinished (players g ! currentPlayerIndex g)
            then [currentPlayerIndex g] else [])"
    and "winner (finishMove g tokId k tok msg cap) =
           (if list_all (\<lambda>t. state t = Home) ((tokens (players g ! currentPlayerIndex g))[k := tok])
               \<and> \<not> hasFinished (players g ! currentPlayerIndex g)
            then Some (currentPlayerIndex g) else None)"
  using assms by (auto simp: finishMove_def Let_def applyCapture_nth_mover)

lemma finishMove_hasFinished:
  assumes "i < length (players g)"
  shows "hasFinished (players (finishMove g tokId k tok msg cap) ! i) \<longleftrightarrow>
           hasFinished (players g ! i)
           \<or> (i = currentPlayerIndex g
               \<and> list_all (\<lambda>t. state t = Home)
                    (tokens (applyCapture (players g) (currentPlayerIndex g) k tok cap ! i)))"
  using assms
  by (auto simp: players_finishMove_nth Let_def applyCapture_hasFinished)

lemma all_home_after_reset:
  assumes "list_all (\<lambda>t. state t = Home) (xs[ct := resetToken x])"
  shows "xs[ct := resetToken x] = xs"
proof (cases "ct < length xs")
  case True
  with assms have "state (resetToken x) = Home"
    by (auto simp: list_all_length dest: spec [of _ ct])
  then show ?thesis by (simp add: resetToken_def)
next
  case False
  then show ?thesis by (simp add: list_update_beyond)
qed

text \<open>A player other than the mover whose tokens are all home after a move had them
  all home before.\<close>

lemma opponent_all_home:
  assumes "i < length (players g)" and "i \<noteq> currentPlayerIndex g"
    and "list_all (\<lambda>t. state t = Home) (tokens (players (finishMove g tokId k tok msg cap) ! i))"
  shows "list_all (\<lambda>t. state t = Home) (tokens (players g ! i))"
proof (cases cap)
  case None
  with assms show ?thesis by (simp add: opponent_tokens_finishMove)
next
  case (Some a)
  obtain ci ct where a: "a = (ci, ct)" by (cases a)
  show ?thesis
  proof (cases "i = ci")
    case False
    with assms Some a show ?thesis by (simp add: opponent_tokens_finishMove)
  next
    case True
    with assms Some a
    have h: "list_all (\<lambda>t. state t = Home)
               ((tokens (players g ! i))[ct := resetToken (tokens (players g ! i) ! ct)])"
      by (simp add: opponent_tokens_finishMove)
    from all_home_after_reset [OF h] h show ?thesis by simp
  qed
qed

lemma finishInv_finishMove:
  assumes "finishInv g" and "\<not> gameOver g" and "currentPlayerIndex g < length (players g)"
  shows "finishInv (finishMove g tokId k tok msg cap)"
proof -
  let ?g' = "finishMove g tokId k tok msg cap"
  from assms(1,2) have fo: "finishOrder g = []" by (simp add: finishInv_def)
  have a: "gameOver ?g' \<or> finishOrder ?g' = []"
    using finishMove_first_finisher(1,2) [OF assms(3) fo, of tokId k tok msg cap] by auto
  have b: "hasFinished (players ?g' ! i)"
    if i: "i < length (players g)"
      and h: "list_all (\<lambda>t. state t = Home) (tokens (players ?g' ! i))" for i
  proof (cases "i = currentPlayerIndex g")
    case True
    with i h show ?thesis
      by (simp add: finishMove_hasFinished tokens_finishMove)
  next
    case False
    from opponent_all_home [OF i False h] assms(1) i
    have "hasFinished (players g ! i)" by (auto simp: finishInv_def)
    with i show ?thesis by (simp add: finishMove_hasFinished)
  qed
  show ?thesis
    unfolding finishInv_def using a b by (auto simp: all_set_conv_all_nth)
qed

lemma finishInv_move:
  assumes "finishInv g" and "moveLocalToken g tokId = Inr g'"
  shows "finishInv g'"
  using moveLocalToken_cases [OF assms(2)] assms(1)
  by (auto intro: finishInv_finishMove)

lemma finishInv_roll:
  assumes "finishInv g" and "rollLocalDice d g = Inr g'"
  shows "finishInv g'"
  using rollLocalDice_cases [OF assms(2)]
proof (elim disjE exE conjE)
  fix m assume "g' = g\<lparr>message := m\<rparr>"
  with assms(1) show ?thesis by simp
next
  assume "players g' = players g" "finishOrder g' = finishOrder g" "gameOver g' = gameOver g"
  from finishInv_cong [OF this] assms(1) show ?thesis by simp
next
  fix m assume "moveLocalToken (newState d g) (tokenId m) = Inr g'"
  from finishInv_move [OF _ this] assms(1) show ?thesis by simp
next
  fix m ms assume "g' = (newState d g)\<lparr>turnPhase := Move, message := m\<rparr>"
  with assms(1) show ?thesis by (simp add: finishInv_def)
qed

lemma newPlayer_not_home:
  assumes "newPlayer names colors j = Inr p"
  shows "list_all (\<lambda>t. state t = Home) (tokens p) \<longrightarrow> hasFinished p"
  using assms
  by (auto simp: newPlayer_def Let_def TOKENS_PER_PLAYER_def newToken_def upt_rec
        split: option.splits)

lemma reachable_finishInv: "reachable g \<Longrightarrow> finishInv g"
proof (induction rule: reachable.induct)
  case (created gid cfg g)
  from created_all [OF created, of "\<lambda>p. list_all (\<lambda>t. state t = Home) (tokens p) \<longrightarrow> hasFinished p"]
    newPlayer_not_home createLocalGame_Inr(2) [OF created]
  show ?case by (simp add: finishInv_def)
next
  case (rolled g d g')
  then show ?case by (auto intro: finishInv_roll)
next
  case (moved g tokId g')
  then show ?case by (auto intro: finishInv_move)
qed

subsection \<open>The finishing move\<close>

lemma finishing_move:
  assumes inv: "finishInv s" and mv: "moveLocalToken s tokId = Inr g'"
    and i: "i < length (players s)" and nf: "\<not> hasFinished (players s ! i)"
    and home: "list_all (\<lambda>t. state t = Home) (tokens (players g' ! i))"
  shows "i = currentPlayerIndex s \<and> hasFinished (players g' ! i)
       \<and> finishOrder g' = finishOrder s @ [i] \<and> gameOver g' \<and> winner g' = Some i"
  using moveLocalToken_cases [OF mv]
proof (elim disjE exE conjE)
  fix m assume "g' = s\<lparr>message := m\<rparr>"
  with home have "list_all (\<lambda>t. state t = Home) (tokens (players s ! i))" by simp
  with inv i nf show ?thesis by (auto simp: finishInv_def)
next
  fix k tok msg cell
  assume ng: "\<not> gameOver s" and c: "currentPlayerIndex s < length (players s)"
    and g': "g' = finishMove s tokId k tok msg (capturedToken s cell)"
  from inv ng have fo: "finishOrder s = []" by (simp add: finishInv_def)
  have ic: "i = currentPlayerIndex s"
  proof (rule ccontr)
    assume "i \<noteq> currentPlayerIndex s"
    from opponent_all_home [OF i this home [unfolded g']] inv i nf
    show False by (auto simp: finishInv_def)
  qed
  from home have h: "list_all (\<lambda>t. state t = Home)
                       ((tokens (players s ! currentPlayerIndex s))[k := tok])"
    unfolding g' ic using c by (simp add: tokens_finishMove applyCapture_nth_mover)
  from nf ic have nf': "\<not> hasFinished (players s ! currentPlayerIndex s)" by simp
  note f = finishMove_first_finisher [OF c fo, of tokId k tok msg "capturedToken s cell"]
  have "hasFinished (players g' ! i)"
    unfolding g' using i ic h c
    by (simp add: finishMove_hasFinished applyCapture_nth_mover)
  moreover have "gameOver g'" unfolding g' using f(1) h nf' by simp
  moreover have "finishOrder g' = finishOrder s @ [i]" unfolding g' using f(2) h nf' fo ic by simp
  moreover have "winner g' = Some i" unfolding g' using f(3) h nf' ic by simp
  ultimately show ?thesis using ic by simp
qed

subsection \<open>hasFinished is never cleared\<close>

lemma moveLocalToken_hasFinished:
  assumes "moveLocalToken g tokId = Inr g'" and "i < length (players g)"
    and "hasFinished (players g ! i)"
  shows "hasFinished (players g' ! i)"
  using moveLocalToken_cases [OF assms(1)] assms(2,3)
  by (auto simp: finishMove_hasFinished)

lemma rollLocalDice_hasFinished:
  assumes "rollLocalDice d g = Inr g'" and "i < length (players g)"
    and "hasFinished (players g ! i)"
  shows "hasFinished (players g' ! i)"
  using rollLocalDice_cases [OF assms(1)] assms(2,3)
  by (auto dest: moveLocalToken_hasFinished)

lemma later_hasFinished:
  assumes "later g g'" and "i < length (players g)" and "hasFinished (players g ! i)"
  shows "length (players g') = length (players g) \<and> hasFinished (players g' ! i)"
  using assms
proof (induction rule: later.induct)
  case (now g)
  then show ?case by simp
next
  case (rolled g g1 d g2)
  then show ?case
    by (auto dest: rollLocalDice_length intro: rollLocalDice_hasFinished)
next
  case (moved g g1 tokId g2)
  then show ?case
    by (auto dest: moveLocalToken_length intro: moveLocalToken_hasFinished)
qed

text \<open>
  C6. In a game (a reachable state), when an operation makes all tokens of player \<open>i\<close>
  \<open>Home\<close> and \<open>i\<close> was not marked as finished before, be it a move the caller asks for or
  the single valid move that \<open>rollLocalDice\<close> applies itself, then \<open>i\<close> is the mover, and
  in the returned state \<open>hasFinished\<close> is true for \<open>i\<close>, \<open>i\<close> is appended to
  \<open>finishOrder\<close>, \<open>gameOver\<close> is true and \<open>winner\<close> is \<open>i\<close>; \<open>hasFinished\<close> stays
  true in every state that any later operations return.
\<close>

theorem first_finisher_wins:
  assumes "reachable g"
    and "rollLocalDice d g = Inr g' \<or> moveLocalToken g tokId = Inr g'"
    and "i < length (players g)" and "\<not> hasFinished (players g ! i)"
    and "list_all (\<lambda>t. state t = Home) (tokens (players g' ! i))"
  shows "i = currentPlayerIndex g \<and> hasFinished (players g' ! i)
       \<and> finishOrder g' = finishOrder g @ [i] \<and> gameOver g' \<and> winner g' = Some i
       \<and> (\<forall>g''. later g' g'' \<longrightarrow> hasFinished (players g'' ! i))"
proof -
  note inv = reachable_finishInv [OF assms(1)]
  have not_home: "\<not> list_all (\<lambda>t. state t = Home) (tokens (players g ! i))"
    using inv assms(3,4) by (auto simp: finishInv_def)
  have main: "i = currentPlayerIndex g \<and> hasFinished (players g' ! i)
       \<and> finishOrder g' = finishOrder g @ [i] \<and> gameOver g' \<and> winner g' = Some i"
    using assms(2)
  proof
    assume "moveLocalToken g tokId = Inr g'"
    from finishing_move [OF inv this assms(3,4,5)] show ?thesis .
  next
    assume "rollLocalDice d g = Inr g'"
    from rollLocalDice_cases [OF this] show ?thesis
    proof (elim disjE exE conjE)
      fix m assume "g' = g\<lparr>message := m\<rparr>"
      with assms(5) not_home show ?thesis by simp
    next
      assume "players g' = players g"
      with assms(5) not_home show ?thesis by simp
    next
      fix m assume mv: "moveLocalToken (newState d g) (tokenId m) = Inr g'"
      have "finishInv (newState d g)" using inv by simp
      from finishing_move [OF this mv] assms(3,4,5) show ?thesis by simp
    next
      fix m ms assume "g' = (newState d g)\<lparr>turnPhase := Move, message := m\<rparr>"
      with assms(5) not_home show ?thesis by simp
    qed
  qed
  have len: "length (players g') = length (players g)"
    using assms(2) by (auto dest: rollLocalDice_length moveLocalToken_length)
  have "\<forall>g''. later g' g'' \<longrightarrow> hasFinished (players g'' ! i)"
    using later_hasFinished [of g' _ i] main assms(3) len by auto
  with main show ?thesis by blast
qed

theorem first_finisher_wins_witness:
  "reachable redLastRoll
   \<and> rollLocalDice 1 redLastRoll = Inr redWon
   \<and> \<not> hasFinished (players redLastRoll ! 0)
   \<and> list_all (\<lambda>t. state t = Home) (tokens (players redWon ! 0))
   \<and> currentPlayerIndex redLastRoll = 0
   \<and> hasFinished (players redWon ! 0)
   \<and> finishOrder redWon = finishOrder redLastRoll @ [0]
   \<and> gameOver redWon \<and> winner redWon = Some 0"
proof -
  have r: "reachable redLastRoll"
    unfolding redLastRoll_def
  proof (rule reachable_play)
    show "list_all okOp lastRollOps" by code_simp
    show "\<not> isl (run game0 lastRollOps)" by code_simp
  qed
  have "\<not> isl (run game0 (lastRollOps @ [RollOp 1]))" by code_simp
  then have s: "rollLocalDice 1 redLastRoll = Inr redWon"
    unfolding redLastRoll_def redWon_def by (rule roll_play)
  have "map hasFinished (players redLastRoll) = [False, False]" by code_simp
  then have l: "0 < length (players redLastRoll)"
    and n: "\<not> hasFinished (players redLastRoll ! 0)"
    by (auto simp: map_eq_Cons_conv)
  have h: "list_all (\<lambda>t. state t = Home) (tokens (players redWon ! 0))" by code_simp
  from first_finisher_wins [OF r disjI1 [OF s] l n h] r s n h
  show ?thesis by simp
qed

subsection \<open>Valid moves\<close>

lemma validEntry_cases:
  "validEntry d i t =
     (if (state t = Base \<and> d = 6) \<or> (state t = Active \<and> stepsFromStart t + d \<le> 58)
      then [\<lparr>tokenId = id_tok t, tokenIndex = i\<rparr>] else [])"
  by (cases "state t")
     (simp_all add: validEntry_def Let_def BOARD_SIZE_def HOME_STRETCH_LENGTH_def)

text \<open>A token id among the valid moves names a token that may move.\<close>

lemma valid_move_token:
  assumes "getValidMovesLocal g = Inr ms" and "tokId \<in> set (map tokenId ms)"
    and "currentPlayerIndex g < length (players g)"
    and "distinct (map id_tok (tokens (players g ! currentPlayerIndex g)))"
    and "findIndex (\<lambda>t. id_tok t = tokId) (tokens (players g ! currentPlayerIndex g)) = Some k"
  shows "\<exists>d. diceValue g = Some d \<and> d \<noteq> 0
           \<and> ((state (tokens (players g ! currentPlayerIndex g) ! k) = Base \<and> d = 6)
              \<or> (state (tokens (players g ! currentPlayerIndex g) ! k) = Active
                  \<and> stepsFromStart (tokens (players g ! currentPlayerIndex g) ! k) + d \<le> 58))"
proof -
  let ?ts = "tokens (players g ! currentPlayerIndex g)"
  from assms(2) have "ms \<noteq> []" by auto
  with assms(1) obtain d where d: "diceValue g = Some d" "d \<noteq> 0"
    by (auto simp: getValidMovesLocal_def split: option.splits if_splits)
  with assms(1,3) have ms: "ms = concat (map (\<lambda>i. validEntry d i (?ts ! i)) [0..<length ?ts])"
    by (simp add: getValidMovesLocal_def nth_opt_in_range)
  from assms(2) obtain m where m: "m \<in> set ms" "tokenId m = tokId" by auto
  with ms obtain i where i: "i < length ?ts" "m \<in> set (validEntry d i (?ts ! i))"
    by auto
  from i(2) have v: "(state (?ts ! i) = Base \<and> d = 6)
              \<or> (state (?ts ! i) = Active \<and> stepsFromStart (?ts ! i) + d \<le> 58)"
    and mi: "tokenId m = id_tok (?ts ! i)"
    by (auto simp: validEntry_cases split: if_splits)
  from assms(5) have k: "k < length ?ts" "id_tok (?ts ! k) = tokId"
    by (simp_all add: findIndex_Some_iff)
  from mi m(2) k(2) have "id_tok (?ts ! i) = id_tok (?ts ! k)" by simp
  with assms(4) i(1) k(1) have "i = k"
    by (auto simp: distinct_conv_nth)
  with v d show ?thesis by blast
qed

lemma moveToken_id:
  "moveToken p t d = Moved tok msg cell \<Longrightarrow> id_tok tok = id_tok t"
  by (auto simp: moveToken_def Let_def split: if_splits)

lemma moveToken_valid:
  assumes "moveToken p t (Some d) = Moved tok msg cell"
    and "(state t = Base \<and> d = 6) \<or> (state t = Active \<and> stepsFromStart t + d \<le> 58)"
    and "0 \<le> d" and "0 \<le> stepsFromStart t" and "state t = Base \<longrightarrow> stepsFromStart t = 0"
  shows "stepsFromStart t \<le> stepsFromStart tok \<and> stepsFromStart tok \<le> 58
       \<and> 0 \<le> stepsFromStart tok \<and> state tok \<noteq> Base"
  using assms
  by (auto simp: moveToken_def Let_def num_of_def BOARD_SIZE_def HOME_STRETCH_LENGTH_def
        split: if_splits)

subsection \<open>The steps of a token\<close>

lemma tokensInv_cong: "players g' = players g \<Longrightarrow> tokensInv g' = tokensInv g"
  by (simp add: tokensInv_def)

lemma tokensInv_newState [simp]: "tokensInv (newState d g) = tokensInv g"
  by (simp add: tokensInv_def)

lemma tokensInv_nth:
  assumes "tokensInv g" and "i < length (players g)" and "t < length (tokens (players g ! i))"
  shows "0 \<le> stepsFromStart (tokens (players g ! i) ! t)"
    and "stepsFromStart (tokens (players g ! i) ! t) \<le> 58"
    and "state (tokens (players g ! i) ! t) = Base \<longrightarrow>
           stepsFromStart (tokens (players g ! i) ! t) = 0"
    and "distinct (map id_tok (tokens (players g ! i)))"
  using assms by (auto simp: tokensInv_def all_set_conv_all_nth)

text \<open>What one applied move does to each token, when the acting token may move.\<close>

lemma finishMove_tokens:
  assumes inv: "tokensInv s" and c: "currentPlayerIndex s < length (players s)"
    and k: "k < length (tokens (players s ! currentPlayerIndex s))"
    and mt: "moveToken (players s ! currentPlayerIndex s)
               (tokens (players s ! currentPlayerIndex s) ! k) (Some d) = Moved tok msg cell"
    and valid: "(state (tokens (players s ! currentPlayerIndex s) ! k) = Base \<and> d = 6)
              \<or> (state (tokens (players s ! currentPlayerIndex s) ! k) = Active
                  \<and> stepsFromStart (tokens (players s ! currentPlayerIndex s) ! k) + d \<le> 58)"
    and d: "0 \<le> d"
    and i: "i < length (players s)" and t: "t < length (tokens (players s ! i))"
    and g': "g' = finishMove s tokId k tok msg (capturedToken s cell)"
  shows "length (tokens (players g' ! i)) = length (tokens (players s ! i))
     \<and> id_tok (tokens (players g' ! i) ! t) = id_tok (tokens (players s ! i) ! t)
     \<and> 0 \<le> stepsFromStart (tokens (players g' ! i) ! t)
     \<and> stepsFromStart (tokens (players g' ! i) ! t) \<le> 58
     \<and> (state (tokens (players g' ! i) ! t) = Base \<longrightarrow>
          stepsFromStart (tokens (players g' ! i) ! t) = 0)
     \<and> (stepsFromStart (tokens (players s ! i) ! t) \<le> stepsFromStart (tokens (players g' ! i) ! t)
         \<or> (i \<noteq> currentPlayerIndex s \<and> state (tokens (players s ! i) ! t) = Active
             \<and> state (tokens (players g' ! i) ! t) = Base
             \<and> stepsFromStart (tokens (players g' ! i) ! t) = 0))"
proof (cases "i = currentPlayerIndex s")
  case True
  let ?ts = "tokens (players s ! currentPlayerIndex s)"
  have ts: "tokens (players g' ! i) = ?ts[k := tok]"
    unfolding g' using True c by (simp add: tokens_finishMove applyCapture_nth_mover)
  note old = tokensInv_nth [OF inv c k]
  from moveToken_valid [OF mt valid d old(1) old(3)] moveToken_id [OF mt]
  have tok: "stepsFromStart (?ts ! k) \<le> stepsFromStart tok" "stepsFromStart tok \<le> 58"
    "0 \<le> stepsFromStart tok" "state tok \<noteq> Base" "id_tok tok = id_tok (?ts ! k)"
    by simp_all
  show ?thesis
  proof (cases "t = k")
    case True
    with ts tok k \<open>i = currentPlayerIndex s\<close> show ?thesis by simp
  next
    case False
    with ts tokensInv_nth [OF inv i t] \<open>i = currentPlayerIndex s\<close> show ?thesis by simp
  qed
next
  case False
  note same = tokensInv_nth [OF inv i t]
  note opp = opponent_tokens_finishMove [OF i False, of tokId k tok msg "capturedToken s cell"]
  show ?thesis
  proof (cases "capturedToken s cell = Some (i, t)")
    case True
    then obtain pos where "cell = Some pos" "checkCapture s (currentPlayerIndex s) pos = Some (i, t)"
      by (cases cell) simp_all
    from checkCapture_Some(5) [OF this(2)]
    have "state (tokens (players s ! i) ! t) = Active" by (simp add: onCell_def)
    moreover have "tokens (players g' ! i)
        = (tokens (players s ! i))[t := resetToken (tokens (players s ! i) ! t)]"
      unfolding g' using opp True by simp
    ultimately show ?thesis using t False by (simp add: resetToken_def)
  next
    case nc: False
    have "tokens (players g' ! i) ! t = tokens (players s ! i) ! t
       \<and> length (tokens (players g' ! i)) = length (tokens (players s ! i))"
    proof (cases "capturedToken s cell")
      case None
      with opp show ?thesis unfolding g' by simp
    next
      case (Some a)
      obtain ci ct where a: "a = (ci, ct)" by (cases a)
      show ?thesis
      proof (cases "i = ci")
        case True
        with nc Some a have "ct \<noteq> t" by simp
        with opp Some a True show ?thesis unfolding g' by simp
      next
        case False
        with opp Some a show ?thesis unfolding g' by simp
      qed
    qed
    with same show ?thesis by simp
  qed
qed

lemma legal_move_tokens:
  assumes inv: "tokensInv s" and dice: "diceInv s"
    and legal: "getValidMovesLocal s = Inr ms" "tokId \<in> set (map tokenId ms)"
    and mv: "moveLocalToken s tokId = Inr g'"
    and i: "i < length (players s)" and t: "t < length (tokens (players s ! i))"
  shows "length (tokens (players g' ! i)) = length (tokens (players s ! i))
     \<and> id_tok (tokens (players g' ! i) ! t) = id_tok (tokens (players s ! i) ! t)
     \<and> 0 \<le> stepsFromStart (tokens (players g' ! i) ! t)
     \<and> stepsFromStart (tokens (players g' ! i) ! t) \<le> 58
     \<and> (state (tokens (players g' ! i) ! t) = Base \<longrightarrow>
          stepsFromStart (tokens (players g' ! i) ! t) = 0)
     \<and> (stepsFromStart (tokens (players s ! i) ! t) \<le> stepsFromStart (tokens (players g' ! i) ! t)
         \<or> (i \<noteq> currentPlayerIndex s \<and> state (tokens (players s ! i) ! t) = Active
             \<and> state (tokens (players g' ! i) ! t) = Base
             \<and> stepsFromStart (tokens (players g' ! i) ! t) = 0))"
  using moveLocalToken_cases [OF mv]
proof (elim disjE exE conjE)
  fix m assume "g' = s\<lparr>message := m\<rparr>"
  with tokensInv_nth [OF inv i t] show ?thesis by simp
next
  fix k tok msg cell
  assume c: "currentPlayerIndex s < length (players s)"
    and f: "findIndex (\<lambda>t. id_tok t = tokId) (tokens (players s ! currentPlayerIndex s)) = Some k"
    and mt: "moveToken (players s ! currentPlayerIndex s)
               (tokens (players s ! currentPlayerIndex s) ! k) (diceValue s) = Moved tok msg cell"
    and g': "g' = finishMove s tokId k tok msg (capturedToken s cell)"
  from f have k: "k < length (tokens (players s ! currentPlayerIndex s))"
    by (simp add: findIndex_Some_iff)
  have dist: "distinct (map id_tok (tokens (players s ! currentPlayerIndex s)))"
    using inv c by (auto simp: tokensInv_def)
  from valid_move_token [OF legal c dist f] obtain d
    where d: "diceValue s = Some d"
      and valid: "(state (tokens (players s ! currentPlayerIndex s) ! k) = Base \<and> d = 6)
              \<or> (state (tokens (players s ! currentPlayerIndex s) ! k) = Active
                  \<and> stepsFromStart (tokens (players s ! currentPlayerIndex s) ! k) + d \<le> 58)"
    by blast
  from dice d have "0 \<le> d" by (auto simp: diceInv_def)
  from finishMove_tokens [OF inv c k mt [unfolded d] valid this i t g']
  show ?thesis .
qed

lemma roll_tokens:
  assumes inv: "tokensInv g" and d: "1 \<le> d" "d \<le> 6"
    and roll: "rollLocalDice d g = Inr g'"
    and i: "i < length (players g)" and t: "t < length (tokens (players g ! i))"
  shows "length (tokens (players g' ! i)) = length (tokens (players g ! i))
     \<and> id_tok (tokens (players g' ! i) ! t) = id_tok (tokens (players g ! i) ! t)
     \<and> 0 \<le> stepsFromStart (tokens (players g' ! i) ! t)
     \<and> stepsFromStart (tokens (players g' ! i) ! t) \<le> 58
     \<and> (state (tokens (players g' ! i) ! t) = Base \<longrightarrow>
          stepsFromStart (tokens (players g' ! i) ! t) = 0)
     \<and> (stepsFromStart (tokens (players g ! i) ! t) \<le> stepsFromStart (tokens (players g' ! i) ! t)
         \<or> (i \<noteq> currentPlayerIndex g \<and> state (tokens (players g ! i) ! t) = Active
             \<and> state (tokens (players g' ! i) ! t) = Base
             \<and> stepsFromStart (tokens (players g' ! i) ! t) = 0))"
  using rollLocalDice_cases [OF roll]
proof (elim disjE exE conjE)
  fix m assume "g' = g\<lparr>message := m\<rparr>"
  with tokensInv_nth [OF inv i t] show ?thesis by simp
next
  assume "players g' = players g"
  with tokensInv_nth [OF inv i t] show ?thesis by simp
next
  fix m
  assume v: "getValidMovesLocal (newState d g) = Inr [m]"
    and mv: "moveLocalToken (newState d g) (tokenId m) = Inr g'"
  have "tokensInv (newState d g)" using inv by simp
  moreover have "diceInv (newState d g)" using d by (simp add: diceInv_def)
  moreover have "tokenId m \<in> set (map tokenId [m])" by simp
  ultimately show ?thesis
    using legal_move_tokens [OF _ _ v _ mv, of i t] i t by simp
next
  fix m ms assume "g' = (newState d g)\<lparr>turnPhase := Move, message := m\<rparr>"
  with tokensInv_nth [OF inv i t] show ?thesis by simp
qed

text \<open>The invariants are kept.\<close>

lemma tokensInv_step:
  assumes "tokensInv g" and "length (players g') = length (players g)"
    and "\<And>i t. i < length (players g) \<Longrightarrow> t < length (tokens (players g ! i)) \<Longrightarrow>
           length (tokens (players g' ! i)) = length (tokens (players g ! i))
         \<and> id_tok (tokens (players g' ! i) ! t) = id_tok (tokens (players g ! i) ! t)
         \<and> 0 \<le> stepsFromStart (tokens (players g' ! i) ! t)
         \<and> stepsFromStart (tokens (players g' ! i) ! t) \<le> 58
         \<and> (state (tokens (players g' ! i) ! t) = Base \<longrightarrow>
              stepsFromStart (tokens (players g' ! i) ! t) = 0)
         \<and> (stepsFromStart (tokens (players g ! i) ! t) \<le> stepsFromStart (tokens (players g' ! i) ! t)
             \<or> (i \<noteq> currentPlayerIndex g \<and> state (tokens (players g ! i) ! t) = Active
                 \<and> state (tokens (players g' ! i) ! t) = Base
                 \<and> stepsFromStart (tokens (players g' ! i) ! t) = 0))"
    and "\<And>i. i < length (players g) \<Longrightarrow>
           length (tokens (players g' ! i)) = length (tokens (players g ! i))"
  shows "tokensInv g'"
proof -
  have "distinct (map id_tok (tokens (players g' ! i)))
        \<and> (\<forall>t<length (tokens (players g' ! i)).
              0 \<le> stepsFromStart (tokens (players g' ! i) ! t)
              \<and> stepsFromStart (tokens (players g' ! i) ! t) \<le> 58
              \<and> (state (tokens (players g' ! i) ! t) = Base \<longrightarrow>
                   stepsFromStart (tokens (players g' ! i) ! t) = 0))"
    if i: "i < length (players g)" for i
  proof -
    have len: "length (tokens (players g' ! i)) = length (tokens (players g ! i))"
      using assms(4) [OF i] .
    have "map id_tok (tokens (players g' ! i)) = map id_tok (tokens (players g ! i))"
      using len assms(3) [OF i] by (auto simp: list_eq_iff_nth_eq)
    moreover have "distinct (map id_tok (tokens (players g ! i)))"
      using assms(1) i by (auto simp: tokensInv_def)
    ultimately show ?thesis using assms(3) [OF i] len by auto
  qed
  then show ?thesis
    unfolding tokensInv_def using assms(2) by (auto simp: all_set_conv_all_nth)
qed

lemma show_nat_digits:
  "show_nat 0 = ''0'' \<and> show_nat (Suc 0) = ''1'' \<and> show_nat (Suc (Suc 0)) = ''2''
   \<and> show_nat (Suc (Suc (Suc 0))) = ''3''"
  by code_simp

lemma newPlayer_tokens:
  assumes "newPlayer names colors j = Inr p"
  shows "distinct (map id_tok (tokens p))
       \<and> (\<forall>t\<in>set (tokens p). 0 \<le> stepsFromStart t \<and> stepsFromStart t \<le> 58
             \<and> (state t = Base \<longrightarrow> stepsFromStart t = 0))"
proof -
  from assms have "tokens p = map (newToken (str_or (nth_opt colors j) (nth_opt defaultColors j)))
                     [0..<TOKENS_PER_PLAYER]"
    by (auto simp: newPlayer_def Let_def split: option.splits)
  then show ?thesis
    by (simp add: TOKENS_PER_PLAYER_def newToken_def upt_rec show_nat_digits)
qed

lemma created_tokensInv:
  assumes "createLocalGame gid cfg = Inr g"
  shows "tokensInv g"
  using assms unfolding tokensInv_def by (rule created_all) (rule newPlayer_tokens)

lemma diceInv_move:
  assumes "diceInv g" and "moveLocalToken g tokId = Inr g'"
  shows "diceInv g'"
  using moveLocalToken_cases [OF assms(2)] assms(1)
  by (auto simp: diceInv_def finishMove_dice)

lemma diceInv_roll:
  assumes "diceInv g" and "1 \<le> d" and "d \<le> 6" and "rollLocalDice d g = Inr g'"
  shows "diceInv g'"
  using rollLocalDice_cases [OF assms(4)]
proof (elim disjE exE conjE)
  fix m assume "g' = g\<lparr>message := m\<rparr>"
  with assms(1) show ?thesis by (simp add: diceInv_def)
next
  assume "diceValue g' = None"
  then show ?thesis by (simp add: diceInv_def)
next
  fix m assume "moveLocalToken (newState d g) (tokenId m) = Inr g'"
  moreover have "diceInv (newState d g)" using assms(2,3) by (simp add: diceInv_def)
  ultimately show ?thesis by (auto intro: diceInv_move)
next
  fix m ms assume "g' = (newState d g)\<lparr>turnPhase := Move, message := m\<rparr>"
  with assms(2,3) show ?thesis by (simp add: diceInv_def)
qed

lemma tokensInv_roll:
  assumes "tokensInv g" and "1 \<le> d" and "d \<le> 6" and "rollLocalDice d g = Inr g'"
  shows "tokensInv g'"
proof (rule tokensInv_step [OF assms(1)])
  show "length (players g') = length (players g)"
    using assms(4) by (rule rollLocalDice_length)
  show "length (tokens (players g' ! i)) = length (tokens (players g ! i))
         \<and> id_tok (tokens (players g' ! i) ! t) = id_tok (tokens (players g ! i) ! t)
         \<and> 0 \<le> stepsFromStart (tokens (players g' ! i) ! t)
         \<and> stepsFromStart (tokens (players g' ! i) ! t) \<le> 58
         \<and> (state (tokens (players g' ! i) ! t) = Base \<longrightarrow>
              stepsFromStart (tokens (players g' ! i) ! t) = 0)
         \<and> (stepsFromStart (tokens (players g ! i) ! t) \<le> stepsFromStart (tokens (players g' ! i) ! t)
             \<or> (i \<noteq> currentPlayerIndex g \<and> state (tokens (players g ! i) ! t) = Active
                 \<and> state (tokens (players g' ! i) ! t) = Base
                 \<and> stepsFromStart (tokens (players g' ! i) ! t) = 0))"
    if "i < length (players g)" "t < length (tokens (players g ! i))" for i t
    using roll_tokens [OF assms that] .
  show "length (tokens (players g' ! i)) = length (tokens (players g ! i))"
    if i: "i < length (players g)" for i
    using rollLocalDice_cases [OF assms(4)] i
    by (auto dest: moveLocalToken_cases simp: tokens_finishMove applyCapture_def Let_def
          split: option.splits)
qed

lemma tokensInv_legal_move:
  assumes "tokensInv g" and "diceInv g"
    and "getValidMovesLocal g = Inr ms" and "tokId \<in> set (map tokenId ms)"
    and "moveLocalToken g tokId = Inr g'"
  shows "tokensInv g'"
proof (rule tokensInv_step [OF assms(1)])
  show "length (players g') = length (players g)"
    using assms(5) by (rule moveLocalToken_length)
  show "length (tokens (players g' ! i)) = length (tokens (players g ! i))
         \<and> id_tok (tokens (players g' ! i) ! t) = id_tok (tokens (players g ! i) ! t)
         \<and> 0 \<le> stepsFromStart (tokens (players g' ! i) ! t)
         \<and> stepsFromStart (tokens (players g' ! i) ! t) \<le> 58
         \<and> (state (tokens (players g' ! i) ! t) = Base \<longrightarrow>
              stepsFromStart (tokens (players g' ! i) ! t) = 0)
         \<and> (stepsFromStart (tokens (players g ! i) ! t) \<le> stepsFromStart (tokens (players g' ! i) ! t)
             \<or> (i \<noteq> currentPlayerIndex g \<and> state (tokens (players g ! i) ! t) = Active
                 \<and> state (tokens (players g' ! i) ! t) = Base
                 \<and> stepsFromStart (tokens (players g' ! i) ! t) = 0))"
    if "i < length (players g)" "t < length (tokens (players g ! i))" for i t
    using legal_move_tokens [OF assms that] .
  show "length (tokens (players g' ! i)) = length (tokens (players g ! i))"
    if i: "i < length (players g)" for i
    using moveLocalToken_cases [OF assms(5)] i
    by (auto simp: tokens_finishMove applyCapture_def Let_def split: option.splits)
qed

lemma played_inv: "played g \<Longrightarrow> tokensInv g \<and> diceInv g"
proof (induction rule: played.induct)
  case (created gid cfg g)
  then show ?case
    by (simp add: created_tokensInv diceInv_def createLocalGame_Inr(4))
next
  case (rolled g d g')
  then show ?case by (auto intro: tokensInv_roll diceInv_roll)
next
  case (moved g ms tokId g')
  from moved.IH have "tokensInv g" "diceInv g" by simp_all
  from tokensInv_legal_move [OF this moved.hyps(2,3,4)] diceInv_move [OF this(2) moved.hyps(4)]
  show ?case by simp
qed

lemma played_run:
  assumes "played g" and "legalRun g ops"
  shows "\<not> isl (run g ops) \<and> played (projr (run g ops))"
  using assms
proof (induction ops arbitrary: g)
  case Nil
  then show ?case by simp
next
  case (Cons x ops)
  show ?case
  proof (cases x)
    case (RollOp d)
    with Cons.prems obtain g1 where g1: "rollLocalDice d g = Inr g1" "legalRun g1 ops"
      and d: "1 \<le> d" "d \<le> 6"
      by (auto split: sum.splits)
    from played.rolled [OF Cons.prems(1) d g1(1)] Cons.IH g1 RollOp show ?thesis by simp
  next
    case (MoveOp t)
    with Cons.prems obtain g1 ms where g1: "moveLocalToken g t = Inr g1" "legalRun g1 ops"
      and v: "getValidMovesLocal g = Inr ms" "t \<in> set (map tokenId ms)"
      by (auto split: sum.splits)
    from played.moved [OF Cons.prems(1) v g1(1)] Cons.IH g1 MoveOp show ?thesis by simp
  qed
qed

lemma played_play: "legalRun game0 ops \<Longrightarrow> played (play ops)"
  using played_run [OF played.created [OF game0_created]] by (simp add: play_def)

text \<open>
  C4 as stated fails: a capture sets \<open>stepsFromStart\<close> of the captured token back to 0.
  In the game below the token \<open>green_0\<close> has one step before red's move and none after.
\<close>

theorem capture_resets_steps:
  "reachable redFacingGreen
   \<and> moveLocalToken redFacingGreen ''red_0'' = Inr redCaptured
   \<and> id_tok (tokens (players redFacingGreen ! 1) ! 0) = ''green_0''
   \<and> stepsFromStart (tokens (players redFacingGreen ! 1) ! 0) = 1
   \<and> id_tok (tokens (players redCaptured ! 1) ! 0) = ''green_0''
   \<and> stepsFromStart (tokens (players redCaptured ! 1) ! 0) = 0"
proof -
  have "reachable redFacingGreen"
    unfolding redFacingGreen_def by (rule reachable_play; code_simp)
  moreover have "moveLocalToken redFacingGreen ''red_0'' = Inr redCaptured
   \<and> id_tok (tokens (players redFacingGreen ! 1) ! 0) = ''green_0''
   \<and> stepsFromStart (tokens (players redFacingGreen ! 1) ! 0) = 1
   \<and> id_tok (tokens (players redCaptured ! 1) ! 0) = ''green_0''
   \<and> stepsFromStart (tokens (players redCaptured ! 1) ! 0) = 0"
    by code_simp
  ultimately show ?thesis by simp
qed

text \<open>
  C4, as amended. In a game in which only valid moves are made, from each state to the
  next (a roll of the die, with the move it may apply itself, or a valid move) every
  token keeps its id and its \<open>stepsFromStart\<close> does not decrease, except for a token of
  another player than the mover that is captured: it goes from \<open>Active\<close> to \<open>Base\<close> and
  its steps are reset to 0. The steps never exceed 58.
\<close>

theorem steps_never_decrease_unless_captured:
  assumes "played g"
    and "(1 \<le> d \<and> d \<le> 6 \<and> rollLocalDice d g = Inr g')
       \<or> (\<exists>ms. getValidMovesLocal g = Inr ms \<and> tokId \<in> set (map tokenId ms)
                \<and> moveLocalToken g tokId = Inr g')"
    and "i < length (players g)" and "t < length (tokens (players g ! i))"
  shows "stepsFromStart (tokens (players g ! i) ! t) \<le> 58
       \<and> stepsFromStart (tokens (players g' ! i) ! t) \<le> 58
       \<and> id_tok (tokens (players g' ! i) ! t) = id_tok (tokens (players g ! i) ! t)
       \<and> (stepsFromStart (tokens (players g ! i) ! t) \<le> stepsFromStart (tokens (players g' ! i) ! t)
           \<or> (i \<noteq> currentPlayerIndex g \<and> state (tokens (players g ! i) ! t) = Active
               \<and> state (tokens (players g' ! i) ! t) = Base
               \<and> stepsFromStart (tokens (players g' ! i) ! t) = 0))"
proof -
  from played_inv [OF assms(1)] have inv: "tokensInv g" and dice: "diceInv g" by simp_all
  note old = tokensInv_nth(2) [OF inv assms(3,4)]
  from assms(2) show ?thesis
  proof (elim disjE exE conjE)
    assume "1 \<le> d" "d \<le> 6" "rollLocalDice d g = Inr g'"
    from roll_tokens [OF inv this assms(3,4)] old show ?thesis by simp
  next
    fix ms
    assume "getValidMovesLocal g = Inr ms" "tokId \<in> set (map tokenId ms)"
      "moveLocalToken g tokId = Inr g'"
    from legal_move_tokens [OF inv dice this assms(3,4)] old show ?thesis by simp
  qed
qed

theorem steps_never_decrease_unless_captured_witness:
  "played redFacingGreen
   \<and> getValidMovesLocal redFacingGreen =
       Inr [\<lparr>tokenId = ''red_0'', tokenIndex = 0\<rparr>, \<lparr>tokenId = ''red_1'', tokenIndex = 1\<rparr>,
            \<lparr>tokenId = ''red_2'', tokenIndex = 2\<rparr>, \<lparr>tokenId = ''red_3'', tokenIndex = 3\<rparr>]
   \<and> moveLocalToken redFacingGreen ''red_0'' = Inr redCaptured
   \<and> length (players redFacingGreen) = 2
   \<and> length (tokens (players redFacingGreen ! 1)) = 4
   \<and> stepsFromStart (tokens (players redFacingGreen ! 1) ! 0) = 1
   \<and> stepsFromStart (tokens (players redFacingGreen ! 0) ! 0) = 8
   \<and> stepsFromStart (tokens (players redCaptured ! 1) ! 0) = 0
   \<and> state (tokens (players redFacingGreen ! 1) ! 0) = Active
   \<and> state (tokens (players redCaptured ! 1) ! 0) = Base
   \<and> stepsFromStart (tokens (players redCaptured ! 0) ! 0) \<le> 58
   \<and> 8 \<le> stepsFromStart (tokens (players redCaptured ! 0) ! 0)"
proof -
  have p: "played redFacingGreen"
    unfolding redFacingGreen_def by (rule played_play) code_simp
  have v: "getValidMovesLocal redFacingGreen =
       Inr [\<lparr>tokenId = ''red_0'', tokenIndex = 0\<rparr>, \<lparr>tokenId = ''red_1'', tokenIndex = 1\<rparr>,
            \<lparr>tokenId = ''red_2'', tokenIndex = 2\<rparr>, \<lparr>tokenId = ''red_3'', tokenIndex = 3\<rparr>]"
    by code_simp
  have m: "moveLocalToken redFacingGreen ''red_0'' = Inr redCaptured" by code_simp
  have l: "length (players redFacingGreen) = 2"
    "length (tokens (players redFacingGreen ! 1)) = 4"
    "length (tokens (players redFacingGreen ! 0)) = 4" by code_simp+
  have s: "stepsFromStart (tokens (players redFacingGreen ! 1) ! 0) = 1"
    "stepsFromStart (tokens (players redFacingGreen ! 0) ! 0) = 8" by code_simp+
  have step: "(1 \<le> (6::int) \<and> (6::int) \<le> 6 \<and> rollLocalDice 6 redFacingGreen = Inr redCaptured)
       \<or> (\<exists>ms. getValidMovesLocal redFacingGreen = Inr ms \<and> ''red_0'' \<in> set (map tokenId ms)
                \<and> moveLocalToken redFacingGreen ''red_0'' = Inr redCaptured)"
    using v m by simp
  have c: "currentPlayerIndex redFacingGreen = 0" by code_simp
  have n: "stepsFromStart (tokens (players redCaptured ! 1) ! 0) = 0
     \<and> state (tokens (players redFacingGreen ! 1) ! 0) = Active
     \<and> state (tokens (players redCaptured ! 1) ! 0) = Base"
    by code_simp
  have i1: "1 < length (players redFacingGreen)" and i0: "0 < length (players redFacingGreen)"
    and t1: "0 < length (tokens (players redFacingGreen ! 1))"
    and t0: "0 < length (tokens (players redFacingGreen ! 0))"
    unfolding l by simp_all
  from steps_never_decrease_unless_captured [OF p step i1 t1]
  have a: "stepsFromStart (tokens (players redCaptured ! 1) ! 0) \<le> 58" by blast
  from steps_never_decrease_unless_captured [OF p step i0 t0] c s(2)
  have b: "stepsFromStart (tokens (players redCaptured ! 0) ! 0) \<le> 58
     \<and> 8 \<le> stepsFromStart (tokens (players redCaptured ! 0) ! 0)"
    by auto
  from p v m l s n a b show ?thesis by simp
qed

end
